theory Spec2Isabelle
  imports Complex_Main "HOL-Library.Word"
begin

section \<open>JavaScript values used by the content script\<close>

text \<open>
  A JavaScript string is a sequence of UTF-16 code units; \<open>s.length\<close> counts code units and
  \<open>s[i]\<close> reads one.  The edit-distance routine only compares code units, so it is modelled
  over lists of any element type.
\<close>

type_synonym jschar = "16 word"
type_synonym jsstring = "jschar list"

text \<open>
  A JavaScript array is a list of slots; a slot that was never assigned is a hole (\<open>None\<close>),
  which reads as \<open>undefined\<close>.  Reading past the end gives \<open>undefined\<close> as well; assigning past
  the end extends the array, leaving holes in between.
\<close>

type_synonym 'a js_array = "'a option list"

definition js_get :: "'a js_array \<Rightarrow> nat \<Rightarrow> 'a option" where
  "js_get xs i = (if i < length xs then xs ! i else None)"

definition js_set :: "'a js_array \<Rightarrow> nat \<Rightarrow> 'a \<Rightarrow> 'a js_array" where
  "js_set xs i v =
     (if i < length xs then xs[i := Some v]
      else xs @ replicate (i - length xs) None @ [Some v])"

text \<open>
  The numbers stored in the matrix are non-negative integers or \<open>NaN\<close> (\<open>None\<close>), the latter
  being what arithmetic on \<open>undefined\<close> produces.
\<close>

type_synonym num = "nat option"

fun to_num :: "num option \<Rightarrow> num" where
  "to_num None = None"
| "to_num (Some v) = v"

definition js_plus :: "num \<Rightarrow> nat \<Rightarrow> num" where
  "js_plus x c = map_option (\<lambda>n. n + c) x"

fun math_min3 :: "num \<Rightarrow> num \<Rightarrow> num \<Rightarrow> num" where
  "math_min3 (Some a) (Some b) (Some c) = Some (min (min a b) c)"
| "math_min3 _ _ _ = None"

text \<open>
  A counted loop \<open>for (let i = a; i <= b; i++) body\<close> runs the body over \<open>[a..<Suc b]\<close>; a body
  that throws (\<open>None\<close>) ends the loop.
\<close>

fun for_loop :: "nat list \<Rightarrow> (nat \<Rightarrow> 's \<Rightarrow> 's option) \<Rightarrow> 's \<Rightarrow> 's option" where
  "for_loop [] body s = Some s"
| "for_loop (i # is) body s =
     (case body i s of None \<Rightarrow> None | Some s' \<Rightarrow> for_loop is body s')"

section \<open>levenshteinDistance\<close>

type_synonym matrix = "num js_array js_array"

text \<open>\<open>matrix[i][j]\<close> as an operand: a \<open>TypeError\<close> (\<open>None\<close>) when row \<open>i\<close> is undefined.\<close>

definition cell :: "matrix \<Rightarrow> nat \<Rightarrow> nat \<Rightarrow> num option" where
  "cell m i j = (case js_get m i of None \<Rightarrow> None | Some r \<Rightarrow> Some (to_num (js_get r j)))"

text \<open>\<open>matrix[i][j] = v\<close>: the row object is updated in place.\<close>

definition set_cell :: "matrix \<Rightarrow> nat \<Rightarrow> nat \<Rightarrow> num \<Rightarrow> matrix option" where
  "set_cell m i j v =
     (case js_get m i of None \<Rightarrow> None | Some r \<Rightarrow> Some (js_set m i (js_set r j v)))"

text \<open>\<open>str[i]\<close>: \<open>undefined\<close> (\<open>None\<close>) out of range.\<close>

definition char_at :: "'a list \<Rightarrow> nat \<Rightarrow> 'a option" where
  "char_at s i = (if i < length s then Some (s ! i) else None)"

text \<open>First loop: \<open>matrix[i] = [i]\<close> for \<open>i = 0 .. len1\<close>.\<close>

definition init_rows :: "nat \<Rightarrow> matrix" where
  "init_rows len1 = fold (\<lambda>i m. js_set m i [Some (Some i)]) [0..<Suc len1] []"

text \<open>Second loop: \<open>matrix[0][j] = j\<close> for \<open>j = 0 .. len2\<close>.\<close>

definition init_cols :: "nat \<Rightarrow> matrix \<Rightarrow> matrix option" where
  "init_cols len2 m = for_loop [0..<Suc len2] (\<lambda>j m. set_cell m 0 j (Some j)) m"

text \<open>The body of the nested loops, at row \<open>i\<close> and column \<open>j\<close>.\<close>

definition fill_cell :: "'a list \<Rightarrow> 'a list \<Rightarrow> nat \<Rightarrow> nat \<Rightarrow> matrix \<Rightarrow> matrix option" where
  "fill_cell str1 str2 i j m =
     (let cost = (if char_at str1 (i - 1) = char_at str2 (j - 1) then 0 else 1) in
      case cell m (i - 1) j of None \<Rightarrow> None | Some up \<Rightarrow>
      (case cell m i (j - 1) of None \<Rightarrow> None | Some left \<Rightarrow>
      (case cell m (i - 1) (j - 1) of None \<Rightarrow> None | Some diag \<Rightarrow>
        set_cell m i j (math_min3 (js_plus up 1) (js_plus left 1) (js_plus diag cost)))))"

definition fill_row :: "'a list \<Rightarrow> 'a list \<Rightarrow> nat \<Rightarrow> matrix \<Rightarrow> matrix option" where
  "fill_row str1 str2 i m = for_loop [1..<Suc (length str2)] (fill_cell str1 str2 i) m"

text \<open>
  The result is \<open>None\<close> if an exception is thrown, \<open>Some None\<close> if \<open>matrix[len1][len2]\<close> is not
  a number, and \<open>Some (Some d)\<close> for the number \<open>d\<close>.
\<close>

definition levenshteinDistance :: "'a list \<Rightarrow> 'a list \<Rightarrow> num option" where
  "levenshteinDistance str1 str2 =
     (let len1 = length str1; len2 = length str2 in
      case init_cols len2 (init_rows len1) of None \<Rightarrow> None | Some m1 \<Rightarrow>
      (case for_loop [1..<Suc len1] (fill_row str1 str2) m1 of None \<Rightarrow> None | Some m2 \<Rightarrow>
        cell m2 len1 len2))"

section \<open>Edit distance as a minimal number of edits\<close>

text \<open>One single-character insertion, deletion or substitution, anywhere in the string.\<close>

inductive edit_step :: "'a list \<Rightarrow> 'a list \<Rightarrow> bool" where
  insertion: "edit_step (p @ s) (p @ c # s)"
| deletion: "edit_step (p @ c # s) (p @ s)"
| substitution: "edit_step (p @ c # s) (p @ c' # s)"

text \<open>\<open>edits n a b\<close>: \<open>a\<close> is transformed into \<open>b\<close> by exactly \<open>n\<close> such edits.\<close>

inductive edits :: "nat \<Rightarrow> 'a list \<Rightarrow> 'a list \<Rightarrow> bool" where
  edits_done: "edits 0 a a"
| edits_more: "edit_step a b \<Longrightarrow> edits n b c \<Longrightarrow> edits (Suc n) a c"

text \<open>The textbook recurrence, peeling the first characters.\<close>

fun lev_rec :: "'a list \<Rightarrow> 'a list \<Rightarrow> nat" where
  "lev_rec [] ys = length ys"
| "lev_rec (x # xs) [] = Suc (length xs)"
| "lev_rec (x # xs) (y # ys) =
     min (min (lev_rec xs (y # ys) + 1) (lev_rec (x # xs) ys + 1))
         (lev_rec xs ys + (if x = y then 0 else 1))"

text \<open>The value the matrix holds at row \<open>i\<close>, column \<open>j\<close>.\<close>

fun dp :: "'a list \<Rightarrow> 'a list \<Rightarrow> nat \<Rightarrow> nat \<Rightarrow> nat" where
  "dp a b 0 j = j"
| "dp a b (Suc i) 0 = Suc i"
| "dp a b (Suc i) (Suc j) =
     min (min (dp a b i (Suc j) + 1) (dp a b (Suc i) j + 1))
         (dp a b i j + (if a ! i = b ! j then 0 else 1))"

section \<open>Strings and word counts\<close>

text \<open>A literal of the source, as code units.\<close>

definition js :: "string \<Rightarrow> jsstring" where
  "js s = map of_char s"

text \<open>The regular-expression class \<open>\s\<close>: white space and line terminators.\<close>

definition is_space :: "jschar \<Rightarrow> bool" where
  "is_space c \<longleftrightarrow>
     c = 0x09 \<or> c = 0x0A \<or> c = 0x0B \<or> c = 0x0C \<or> c = 0x0D \<or> c = 0x20 \<or> c = 0xA0 \<or>
     c = 0x1680 \<or> (0x2000 \<le> c \<and> c \<le> 0x200A) \<or> c = 0x2028 \<or> c = 0x2029 \<or>
     c = 0x202F \<or> c = 0x205F \<or> c = 0x3000 \<or> c = 0xFEFF"

text \<open>
  \<open>text.split(/\s+/)\<close>: the pieces between maximal runs of white space.  A separator at the
  start or at the end leaves an empty piece there, and the empty string splits into one
  empty piece.  The flag says whether the scan is inside a separator.
\<close>

fun split_from :: "bool \<Rightarrow> jsstring \<Rightarrow> jsstring list" where
  "split_from in_sep [] = [[]]"
| "split_from in_sep (c # cs) =
     (if is_space c then (if in_sep then split_from True cs else [] # split_from True cs)
      else (case split_from False cs of [] \<Rightarrow> [[c]] | p # ps \<Rightarrow> (c # p) # ps))"

definition split_ws :: "jsstring \<Rightarrow> jsstring list" where
  "split_ws s = split_from False s"

text \<open>\<open>text.split(/\s+/).filter(w => w.length > 0).length\<close>\<close>

definition wordCount :: "jsstring \<Rightarrow> nat" where
  "wordCount s = length (filter (\<lambda>w. 0 < length w) (split_ws s))"

section \<open>Numbers\<close>

text \<open>
  A JavaScript number is an IEEE 754 double.  Finite values are modelled by the rational
  they denote, and every arithmetic result is rounded to the nearest double, ties to even
  (\<open>fl\<close>).  The exponent range is not bounded and zero has no sign: the quotients and
  percentages computed from string lengths stay far inside the normal range.
\<close>

datatype jsnum = NaN | PosInf | NegInf | Num rat

function ilog2 :: "int \<Rightarrow> int" where
  "ilog2 n = (if n < 2 then 0 else 1 + ilog2 (n div 2))"
  by auto
termination
  by (relation "measure nat") auto

declare ilog2.simps [simp del]

text \<open>The exponent \<open>e\<close> with \<open>2 powi e \<le> q < 2 powi (e + 1)\<close>, for positive \<open>q\<close>.\<close>

definition binade :: "rat \<Rightarrow> int" where
  "binade q = (if 1 \<le> q then ilog2 \<lfloor>q\<rfloor> else - (ilog2 (\<lceil>1 / q\<rceil> - 1) + 1))"

definition round_half_even :: "rat \<Rightarrow> int" where
  "round_half_even q =
     (let f = \<lfloor>q\<rfloor>; r = q - of_int f in
      if r < 1 / 2 then f else if 1 / 2 < r then f + 1 else if even f then f else f + 1)"

text \<open>Rounding to 53 significant bits.\<close>

definition fl :: "rat \<Rightarrow> rat" where
  "fl q =
     (if q = 0 then 0
      else let u = 2 powi (binade \<bar>q\<bar> - 52)
           in sgn q * of_int (round_half_even (\<bar>q\<bar> / u)) * u)"

text \<open>The operators \<open>/\<close> and \<open>*\<close>.\<close>

fun js_div :: "jsnum \<Rightarrow> jsnum \<Rightarrow> jsnum" where
  "js_div (Num a) (Num b) =
     (if b = 0 then (if a = 0 then NaN else if 0 < a then PosInf else NegInf)
      else Num (fl (a / b)))"
| "js_div (Num a) PosInf = Num 0"
| "js_div (Num a) NegInf = Num 0"
| "js_div PosInf (Num b) = (if 0 \<le> b then PosInf else NegInf)"
| "js_div NegInf (Num b) = (if 0 \<le> b then NegInf else PosInf)"
| "js_div _ _ = NaN"

fun js_mul :: "jsnum \<Rightarrow> jsnum \<Rightarrow> jsnum" where
  "js_mul (Num a) (Num b) = Num (fl (a * b))"
| "js_mul PosInf (Num b) = (if b = 0 then NaN else if 0 < b then PosInf else NegInf)"
| "js_mul NegInf (Num b) = (if b = 0 then NaN else if 0 < b then NegInf else PosInf)"
| "js_mul (Num a) PosInf = (if a = 0 then NaN else if 0 < a then PosInf else NegInf)"
| "js_mul (Num a) NegInf = (if a = 0 then NaN else if 0 < a then NegInf else PosInf)"
| "js_mul PosInf PosInf = PosInf"
| "js_mul NegInf NegInf = PosInf"
| "js_mul PosInf NegInf = NegInf"
| "js_mul NegInf PosInf = NegInf"
| "js_mul _ _ = NaN"

text \<open>\<open>Math.round\<close>: the nearest integer, a tie going up.\<close>

fun math_round :: "jsnum \<Rightarrow> jsnum" where
  "math_round (Num x) = Num (of_int \<lfloor>x + 1 / 2\<rfloor>)"
| "math_round x = x"

text \<open>The comparisons \<open><\<close>, \<open>>\<close> and \<open>>=\<close>; each is false when an operand is \<open>NaN\<close>.\<close>

fun js_less :: "jsnum \<Rightarrow> jsnum \<Rightarrow> bool" where
  "js_less NaN _ = False"
| "js_less _ NaN = False"
| "js_less (Num a) (Num b) = (a < b)"
| "js_less _ NegInf = False"
| "js_less NegInf _ = True"
| "js_less PosInf _ = False"
| "js_less _ PosInf = True"

definition js_greater :: "jsnum \<Rightarrow> jsnum \<Rightarrow> bool" where
  "js_greater a b = js_less b a"

definition js_ge :: "jsnum \<Rightarrow> jsnum \<Rightarrow> bool" where
  "js_ge a b \<longleftrightarrow> a \<noteq> NaN \<and> b \<noteq> NaN \<and> \<not> js_less a b"

text \<open>A matrix entry as a number.\<close>

fun num_value :: "num \<Rightarrow> jsnum" where
  "num_value None = NaN"
| "num_value (Some d) = Num (of_nat d)"

section \<open>calculateEditPercentage\<close>

text \<open>\<open>None\<close> if \<open>levenshteinDistance\<close> throws.\<close>

definition calculateEditPercentage :: "'a list \<Rightarrow> 'a list \<Rightarrow> jsnum option" where
  "calculateEditPercentage original final =
     (case levenshteinDistance original final of None \<Rightarrow> None
      | Some distance \<Rightarrow>
          (let maxLength = max (length original) (length final) in
           Some (math_round (js_mul (js_div (num_value distance) (Num (of_nat maxLength))) (Num 100)))))"

section \<open>categorizeLengthChange\<close>

text \<open>Here the pieces of the split are counted without dropping the empty ones.\<close>

definition categorizeLengthChange :: "jsstring \<Rightarrow> jsstring \<Rightarrow> jsstring" where
  "categorizeLengthChange original final =
     (let origWords = length (split_ws original);
          finalWords = length (split_ws final);
          change = js_mul (js_div (Num (of_int (int finalWords - int origWords)))
                                  (Num (of_nat origWords))) (Num 100)
      in if js_greater change (Num 20) then js ''Expanded''
         else if js_less change (Num (- 20)) then js ''Shortened''
         else js ''No significant change'')"

section \<open>Objects, the stored list and the tracker state\<close>

text \<open>
  Values held in object properties.  \<open>JObject\<close> stands for any object or array (always
  truthy), named by an opaque token.
\<close>

datatype jsval = JUndefined | JNull | JBool bool | JNumber jsnum | JStr jsstring | JObject nat

text \<open>An object literal is a finite map from property names to values.\<close>

type_synonym jsobj = "jsstring \<rightharpoonup> jsval"

text \<open>\<open>obj.k\<close>: \<open>undefined\<close> when the property is missing.\<close>

definition get_prop :: "jsobj \<Rightarrow> jsstring \<Rightarrow> jsval" where
  "get_prop obj k = (case obj k of None \<Rightarrow> JUndefined | Some v \<Rightarrow> v)"

fun truthy :: "jsval \<Rightarrow> bool" where
  "truthy JUndefined = False"
| "truthy JNull = False"
| "truthy (JBool b) = b"
| "truthy (JNumber n) = (n \<noteq> NaN \<and> n \<noteq> Num 0)"
| "truthy (JStr s) = (s \<noteq> [])"
| "truthy (JObject r) = True"

text \<open>\<open>DETECTION_CONFIG\<close>\<close>

definition MIN_WORD_COUNT :: nat where "MIN_WORD_COUNT = 30"
definition BULK_INSERT_THRESHOLD :: int where "BULK_INSERT_THRESHOLD = 2000"
definition MIN_EDIT_PERCENTAGE :: rat where "MIN_EDIT_PERCENTAGE = 10"
definition ANALYSIS_DELAY :: int where "ANALYSIS_DELAY = 3000"

text \<open>The object kept in \<open>currentDraft\<close>; \<open>textBox\<close> names the DOM element.\<close>

record draft =
  draft_id :: jsstring
  draft_textBox :: nat
  draft_originalText :: jsstring
  draft_originalWordCount :: nat
  draft_generatedAt :: jsstring
  draft_timestamp :: int

text \<open>
  The variables closed over by one call of \<open>monitorComposeWindow\<close>: the text box it
  resolved its argument to, and the state of its observer.  A pending timeout is kept as
  the time it is due and the text its callback captured; \<open>None\<close> when no timeout is pending.
\<close>

record surface =
  textBox :: nat
  lastText :: jsstring
  lastChangeTime :: int
  fridayDraftDetected :: bool
  analysisTimer :: "(int \<times> jsstring) option"

text \<open>A call of \<open>analyzeEdits\<close> whose promise has not settled, with what its continuation captured.\<close>

record classification =
  cl_originalText :: jsstring
  cl_currentText :: jsstring
  cl_editPercentage :: jsnum
  cl_timeSinceGeneration :: int
  cl_wordCount :: nat

text \<open>The calls that are recorded as they happen.\<close>

datatype call =
    HandleFridayDraftDetected nat jsstring
  | StoreDraft jsstring
  | AnalyzeCurrentEdits jsstring
  | AnalyzeEdits jsstring jsstring
  | Fetch
  | UpdateDraftWithAnalysis jsstring

text \<open>
  The state of the content script: the shared \<open>currentDraft\<close>, the list stored under
  \<open>drafts\<close> in \<open>chrome.storage.local\<close> (\<open>None\<close> while the key is unset), the closures of the
  calls of \<open>monitorComposeWindow\<close> numbered in the order of the calls, the classifications
  in flight and the record of calls; then the number of observers created so far, the DOM
  elements in the \<open>watchedComposeWindows\<close> set (dialogs and text boxes alike), and the text
  boxes whose delayed \<open>monitorComposeWindow\<close> has not run yet.  Each read-modify-write of the
  stored list is taken as one step.
\<close>

record tracker =
  currentDraft :: "draft option"
  drafts :: "jsobj list option"
  surfaces :: "nat \<Rightarrow> surface option"
  inFlight :: "classification list"
  calls :: "call list"
  observerCount :: nat
  watchedComposeWindows :: "nat set"
  scheduled :: "nat list"

text \<open>
  What a callback reads from its environment: \<open>Date.now()\<close> on entry, the result of
  \<open>generateDraftId()\<close>, \<open>new Date().toISOString()\<close>, and \<open>Date.now()\<close> for the time stamp.
\<close>

record env =
  now :: int
  freshId :: jsstring
  isoDate :: jsstring
  stamp :: int

definition initial :: tracker where
  "initial = \<lparr>currentDraft = None, drafts = None, surfaces = (\<lambda>ob. None), inFlight = [],
               calls = [], observerCount = 0, watchedComposeWindows = {}, scheduled = []\<rparr>"

section \<open>Storing and updating draft records\<close>

text \<open>\<open>result.drafts || []\<close>\<close>

definition stored :: "tracker \<Rightarrow> jsobj list" where
  "stored w = (case drafts w of None \<Rightarrow> [] | Some ds \<Rightarrow> ds)"

definition storeDraft :: "draft \<Rightarrow> tracker \<Rightarrow> tracker" where
  "storeDraft d w =
     (let draftRecord =
            [js ''id'' \<mapsto> JStr (draft_id d),
             js ''originalText'' \<mapsto> JStr (draft_originalText d),
             js ''originalWordCount'' \<mapsto> JNumber (Num (of_nat (draft_originalWordCount d))),
             js ''generatedAt'' \<mapsto> JStr (draft_generatedAt d),
             js ''timestamp'' \<mapsto> JNumber (Num (of_int (draft_timestamp d))),
             js ''status'' \<mapsto> JStr (js ''pending'')]
      in w\<lparr>drafts := Some (stored w @ [draftRecord]),
            calls := calls w @ [StoreDraft (draft_id d)]\<rparr>)"

text \<open>\<open>findIndex\<close>, with \<open>None\<close> for \<open>-1\<close>.\<close>

fun findIndex :: "('a \<Rightarrow> bool) \<Rightarrow> 'a list \<Rightarrow> nat option" where
  "findIndex p [] = None"
| "findIndex p (x # xs) = (if p x then Some 0 else map_option Suc (findIndex p xs))"

definition updateDraftWithAnalysis :: "jsstring \<Rightarrow> jsobj \<Rightarrow> tracker \<Rightarrow> tracker" where
  "updateDraftWithAnalysis draftId analysisData w =
     (let ds = stored w;
          w' = w\<lparr>calls := calls w @ [UpdateDraftWithAnalysis draftId]\<rparr>
      in case findIndex (\<lambda>d. get_prop d (js ''id'') = JStr draftId) ds of
           None \<Rightarrow> w'
         | Some draftIndex \<Rightarrow>
             w'\<lparr>drafts := Some (ds[draftIndex := (ds ! draftIndex) ++
                [js ''finalText'' \<mapsto> get_prop analysisData (js ''finalText''),
                 js ''finalWordCount'' \<mapsto> get_prop analysisData (js ''finalWordCount''),
                 js ''sentAt'' \<mapsto> get_prop analysisData (js ''sentAt''),
                 js ''sendDelay'' \<mapsto> get_prop analysisData (js ''sendDelay''),
                 js ''editPercentage'' \<mapsto> get_prop analysisData (js ''editPercentage''),
                 js ''toneChange'' \<mapsto> get_prop analysisData (js ''toneChange''),
                 js ''ctaChange'' \<mapsto> get_prop analysisData (js ''ctaChange''),
                 js ''lengthChange'' \<mapsto> get_prop analysisData (js ''lengthChange''),
                 js ''summary'' \<mapsto> get_prop analysisData (js ''summary''),
                 js ''status'' \<mapsto>
                   (if truthy (get_prop analysisData (js ''status''))
                    then get_prop analysisData (js ''status'') else JStr (js ''editing''))]])\<rparr>)"

section \<open>analyzeEdits\<close>

text \<open>
  What the network does with the request: \<open>fetch\<close> rejects, or a response arrives with its
  \<open>ok\<close> flag, its status, and a body.  The body fails in \<open>response.json()\<close>, or lacks
  \<open>choices[0].message.content\<close>, or has content that \<open>JSON.parse\<close> rejects, or parses to a
  value whose own properties are given.
\<close>

datatype body = JsonRejected | ContentMissing | ContentUnparseable | Parsed jsobj

datatype fetch_outcome = FetchRejected | Response bool nat body

text \<open>
  The verdict and the number of network calls made.  The edit percentage and the delay only
  appear in the prompt.
\<close>

definition fallback :: "string \<Rightarrow> string \<Rightarrow> jsstring \<Rightarrow> jsstring \<Rightarrow> jsobj" where
  "fallback unable note originalText finalText =
     [js ''toneChange'' \<mapsto> JStr (js unable),
      js ''ctaChange'' \<mapsto> JStr (js unable),
      js ''lengthChange'' \<mapsto> JStr (categorizeLengthChange originalText finalText),
      js ''summary'' \<mapsto> JStr (js note)]"

definition analyzeEdits ::
  "jsstring \<Rightarrow> fetch_outcome \<Rightarrow> jsstring \<Rightarrow> jsstring \<Rightarrow> jsnum \<Rightarrow> int \<Rightarrow> jsobj \<times> nat" where
  "analyzeEdits apiKey net originalText finalText editPercentage sendDelay =
     (if apiKey = [] then
        (fallback ''Unable to analyze (no API key)'' ''No API key configured'' originalText finalText, 0)
      else
        (case net of
           Response True status (Parsed result) \<Rightarrow> (result, 1)
         | _ \<Rightarrow> (fallback ''Unable to analyze (API error)'' ''Analysis failed'' originalText finalText, 1)))"

section \<open>The observer of a compose window\<close>

text \<open>
  \<open>monitorComposeWindow\<close>, called at time \<open>t\<close> with an element that resolves to the text box
  \<open>tb\<close> (the element itself, or the first text box inside it): a new closure with its own
  observer on \<open>tb\<close>.  Nothing here looks at the observers that exist already.
\<close>

definition monitorComposeWindow :: "nat \<Rightarrow> int \<Rightarrow> tracker \<Rightarrow> tracker" where
  "monitorComposeWindow tb t w =
     w\<lparr>surfaces := (surfaces w)(observerCount w \<mapsto>
         \<lparr>textBox = tb, lastText = [], lastChangeTime = t, fridayDraftDetected = False,
          analysisTimer = None\<rparr>),
       observerCount := Suc (observerCount w)\<rparr>"

definition handleFridayDraftDetected :: "nat \<Rightarrow> jsstring \<Rightarrow> env \<Rightarrow> tracker \<Rightarrow> tracker" where
  "handleFridayDraftDetected tb text e w =
     (let d = \<lparr>draft_id = freshId e, draft_textBox = tb, draft_originalText = text,
               draft_originalWordCount = wordCount text, draft_generatedAt = isoDate e,
               draft_timestamp = stamp e\<rparr>
      in storeDraft d
           (w\<lparr>currentDraft := Some d,
              calls := calls w @ [HandleFridayDraftDetected tb text]\<rparr>))"

text \<open>The test that guards the detection.\<close>

definition pastePattern :: "surface \<Rightarrow> jsstring \<Rightarrow> int \<Rightarrow> bool" where
  "pastePattern s currentText currentTime \<longleftrightarrow>
     \<not> fridayDraftDetected s \<and>
     MIN_WORD_COUNT \<le> wordCount currentText \<and>
     100 < int (length currentText) - int (length (lastText s)) \<and>
     currentTime - lastChangeTime s < BULK_INSERT_THRESHOLD"

text \<open>
  The callback of the \<open>MutationObserver\<close> of closure \<open>ob\<close>, run with the text read from its
  text box.
\<close>

definition observer :: "nat \<Rightarrow> jsstring \<Rightarrow> env \<Rightarrow> tracker \<Rightarrow> tracker" where
  "observer ob currentText e w =
     (case surfaces w ob of None \<Rightarrow> w
      | Some s \<Rightarrow>
          if currentText = lastText s then w
          else
            let currentTime = now e;
                detect = pastePattern s currentText currentTime;
                s1 = (if detect then s\<lparr>fridayDraftDetected := True\<rparr> else s);
                w1 = (if detect then handleFridayDraftDetected (textBox s) currentText e w
                      else w);
                s2 = (if fridayDraftDetected s1 \<and> currentDraft w1 \<noteq> None
                      then s1\<lparr>analysisTimer := Some (currentTime + ANALYSIS_DELAY, currentText)\<rparr>
                      else s1);
                s3 = s2\<lparr>lastText := currentText, lastChangeTime := currentTime\<rparr>
            in w1\<lparr>surfaces := (surfaces w1)(ob \<mapsto> s3)\<rparr>)"

section \<open>analyzeCurrentEdits and its continuation\<close>

definition analyzeCurrentEdits :: "jsstring \<Rightarrow> int \<Rightarrow> tracker \<Rightarrow> tracker" where
  "analyzeCurrentEdits currentText t w =
     (let w' = w\<lparr>calls := calls w @ [AnalyzeCurrentEdits currentText]\<rparr> in
      case currentDraft w of None \<Rightarrow> w'
      | Some d \<Rightarrow>
          (case calculateEditPercentage (draft_originalText d) currentText of None \<Rightarrow> w'
           | Some editPercentage \<Rightarrow>
               if js_ge editPercentage (Num MIN_EDIT_PERCENTAGE) then
                 w'\<lparr>inFlight := inFlight w' @
                       [\<lparr>cl_originalText = draft_originalText d, cl_currentText = currentText,
                         cl_editPercentage = editPercentage,
                         cl_timeSinceGeneration = t - draft_timestamp d,
                         cl_wordCount = wordCount currentText\<rparr>],
                     calls := calls w' @ [AnalyzeEdits (draft_originalText d) currentText]\<rparr>
               else w'))"

text \<open>The timeout of closure \<open>ob\<close> fires at time \<open>t\<close>.\<close>

definition timeout :: "nat \<Rightarrow> int \<Rightarrow> tracker \<Rightarrow> tracker" where
  "timeout ob t w =
     (case surfaces w ob of None \<Rightarrow> w
      | Some s \<Rightarrow>
          (case analysisTimer s of None \<Rightarrow> w
           | Some (due, currentText) \<Rightarrow>
               analyzeCurrentEdits currentText t
                 (w\<lparr>surfaces := (surfaces w)(ob \<mapsto> s\<lparr>analysisTimer := None\<rparr>)\<rparr>)))"

text \<open>
  The promise of the \<open>i\<close>-th classification in flight settles: \<open>analyzeEdits\<close> runs with the
  stored key and the outcome of the network, and the \<open>then\<close> callback updates the record of
  whatever draft is current at that moment.
\<close>

definition settled :: "nat \<Rightarrow> jsstring \<Rightarrow> fetch_outcome \<Rightarrow> jsstring \<Rightarrow> tracker \<Rightarrow> tracker" where
  "settled i apiKey net sentAt w =
     (if length (inFlight w) \<le> i then w
      else
        let c = inFlight w ! i;
            (analysis, fetches) =
               analyzeEdits apiKey net (cl_originalText c) (cl_currentText c)
                 (cl_editPercentage c) (cl_timeSinceGeneration c);
            w1 = w\<lparr>inFlight := take i (inFlight w) @ drop (Suc i) (inFlight w),
                   calls := calls w @ replicate fetches Fetch\<rparr>
        in case currentDraft w1 of None \<Rightarrow> w1
           | Some d \<Rightarrow>
               updateDraftWithAnalysis (draft_id d)
                 (([js ''finalText'' \<mapsto> JStr (cl_currentText c),
                    js ''finalWordCount'' \<mapsto> JNumber (Num (of_nat (cl_wordCount c))),
                    js ''sentAt'' \<mapsto> JStr sentAt,
                    js ''sendDelay'' \<mapsto> JNumber (Num (of_int (cl_timeSinceGeneration c))),
                    js ''editPercentage'' \<mapsto> JNumber (cl_editPercentage c)]
                   ++ analysis)(js ''status'' \<mapsto> JStr (js ''editing'')))
                 w1)"

section \<open>Window discovery and runs\<close>

text \<open>
  The body observer of \<open>observeComposeWindows\<close>, for one text box found in an added node: a
  text box that is not in the set is put there and \<open>monitorComposeWindow\<close> is scheduled for
  it, 500 ms later.
\<close>

definition watchTextBox :: "nat \<Rightarrow> tracker \<Rightarrow> tracker" where
  "watchTextBox tb w =
     (if tb \<in> watchedComposeWindows w then w
      else w\<lparr>watchedComposeWindows := insert tb (watchedComposeWindows w),
             scheduled := scheduled w @ [tb]\<rparr>)"

text \<open>The closures whose observer is on text box \<open>tb\<close>, in the order they were created.\<close>

definition observersOf :: "tracker \<Rightarrow> nat \<Rightarrow> nat list" where
  "observersOf w tb =
     filter (\<lambda>ob. case surfaces w ob of None \<Rightarrow> False | Some s \<Rightarrow> textBox s = tb)
       [0..<observerCount w]"

text \<open>
  What can happen:
  \<^item> \<open>ExistingWindow dialog found t\<close>: at start-up \<open>observeComposeWindows\<close> meets the dialog
    \<open>dialog\<close>, whose first text box is \<open>found\<close> (\<open>None\<close> if it has none).  A dialog not in the
    set is put there and handed to \<open>monitorComposeWindow\<close>, which returns at once when there
    is no text box.  The text box itself is not put in the set.
  \<^item> \<open>AddedNode tbs\<close>: the body observer sees an added node whose text boxes are \<open>tbs\<close>.
  \<^item> \<open>MonitorTimer t\<close>: the oldest scheduled \<open>monitorComposeWindow\<close> runs.
  \<^item> \<open>Mutation tb text envOf\<close>: the content of text box \<open>tb\<close> changes; the callback of every
    observer on \<open>tb\<close> runs, in the order of creation, each reading the same text and its
    own environment.
  \<^item> \<open>Timeout ob t\<close>: the pending timeout of closure \<open>ob\<close> fires.
  \<^item> \<open>Settled i apiKey net sentAt\<close>: a classification in flight settles.
\<close>

datatype event =
    ExistingWindow nat "nat option" int
  | AddedNode "nat list"
  | MonitorTimer int
  | Mutation nat jsstring "nat \<Rightarrow> env"
  | Timeout nat int
  | Settled nat jsstring fetch_outcome jsstring

fun step :: "event \<Rightarrow> tracker \<Rightarrow> tracker" where
  "step (ExistingWindow dialog found t) w =
     (if dialog \<in> watchedComposeWindows w then w
      else
        let w' = w\<lparr>watchedComposeWindows := insert dialog (watchedComposeWindows w)\<rparr>
        in case found of None \<Rightarrow> w' | Some tb \<Rightarrow> monitorComposeWindow tb t w')"
| "step (AddedNode tbs) w = fold watchTextBox tbs w"
| "step (MonitorTimer t) w =
     (case scheduled w of [] \<Rightarrow> w
      | tb # rest \<Rightarrow> monitorComposeWindow tb t (w\<lparr>scheduled := rest\<rparr>))"
| "step (Mutation tb text envOf) w =
     fold (\<lambda>ob. observer ob text (envOf ob)) (observersOf w tb) w"
| "step (Timeout ob t) w = timeout ob t w"
| "step (Settled i apiKey net sentAt) w = settled i apiKey net sentAt w"

definition run :: "event list \<Rightarrow> tracker \<Rightarrow> tracker" where
  "run evs w = fold step evs w"

text \<open>
  A timed run of one observer: before each mutation, and at the end of a silence, a
  pending timeout that has become due fires at its due time.
\<close>

definition fireDue :: "nat \<Rightarrow> int \<Rightarrow> tracker \<Rightarrow> tracker" where
  "fireDue ob t w =
     (case surfaces w ob of None \<Rightarrow> w
      | Some s \<Rightarrow>
          (case analysisTimer s of None \<Rightarrow> w
           | Some (due, currentText) \<Rightarrow> if due \<le> t then timeout ob due w else w))"

fun play :: "nat \<Rightarrow> (jsstring \<times> env) list \<Rightarrow> tracker \<Rightarrow> tracker" where
  "play ob [] w = w"
| "play ob ((text, e) # rest) w = play ob rest (observer ob text e (fireDue ob (now e) w))"

text \<open>The texts \<open>analyzeCurrentEdits\<close> was called with, in order.\<close>

fun analysisTexts :: "call list \<Rightarrow> jsstring list" where
  "analysisTexts [] = []"
| "analysisTexts (AnalyzeCurrentEdits text # cs) = text # analysisTexts cs"
| "analysisTexts (c # cs) = analysisTexts cs"

section \<open>Invariant of the matrix loops\<close>

text \<open>Row \<open>i\<close> filled up to column \<open>j\<close>.\<close>

definition dp_row :: "'a list \<Rightarrow> 'a list \<Rightarrow> nat \<Rightarrow> nat \<Rightarrow> num js_array" where
  "dp_row a b i j = map (\<lambda>c. Some (Some (dp a b i c))) [0..<Suc j]"

text \<open>Rows below \<open>k\<close> are complete, row \<open>k\<close> is filled up to column \<open>j\<close>, later rows are as initialised.\<close>

definition dp_inv :: "'a list \<Rightarrow> 'a list \<Rightarrow> nat \<Rightarrow> nat \<Rightarrow> matrix \<Rightarrow> bool" where
  "dp_inv a b k j m \<longleftrightarrow>
     length m = Suc (length a) \<and>
     (\<forall>i<k. m ! i = Some (dp_row a b i (length b))) \<and>
     m ! k = Some (dp_row a b k j) \<and>
     (\<forall>i. k < i \<and> i \<le> length a \<longrightarrow> m ! i = Some [Some (Some i)])"

section \<open>Notions used in the statements\<close>

text \<open>The properties that \<open>updateDraftWithAnalysis\<close> writes into the matching record.\<close>

definition analysisKeys :: "jsstring set" where
  "analysisKeys = {js ''finalText'', js ''finalWordCount'', js ''sentAt'', js ''sendDelay'',
     js ''editPercentage'', js ''toneChange'', js ''ctaChange'', js ''lengthChange'',
     js ''summary'', js ''status''}"

text \<open>The record that replaces a matching record \<open>r\<close>.\<close>

definition merged :: "jsobj \<Rightarrow> jsobj \<Rightarrow> jsobj" where
  "merged r a = r ++
                [js ''finalText'' \<mapsto> get_prop a (js ''finalText''),
                 js ''finalWordCount'' \<mapsto> get_prop a (js ''finalWordCount''),
                 js ''sentAt'' \<mapsto> get_prop a (js ''sentAt''),
                 js ''sendDelay'' \<mapsto> get_prop a (js ''sendDelay''),
                 js ''editPercentage'' \<mapsto> get_prop a (js ''editPercentage''),
                 js ''toneChange'' \<mapsto> get_prop a (js ''toneChange''),
                 js ''ctaChange'' \<mapsto> get_prop a (js ''ctaChange''),
                 js ''lengthChange'' \<mapsto> get_prop a (js ''lengthChange''),
                 js ''summary'' \<mapsto> get_prop a (js ''summary''),
                 js ''status'' \<mapsto>
                   (if truthy (get_prop a (js ''status''))
                    then get_prop a (js ''status'') else JStr (js ''editing''))]"

text \<open>How often \<open>handleFridayDraftDetected\<close> was called for text box \<open>tb\<close>.\<close>

fun detections :: "nat \<Rightarrow> call list \<Rightarrow> nat" where
  "detections tb [] = 0"
| "detections tb (HandleFridayDraftDetected tb' text # cs) =
     (if tb' = tb then 1 else 0) + detections tb cs"
| "detections tb (c # cs) = detections tb cs"

text \<open>Every stored record has status \<open>pending\<close> or \<open>editing\<close>.\<close>

definition statuses_ok :: "tracker \<Rightarrow> bool" where
  "statuses_ok w \<longleftrightarrow>
     (\<forall>r\<in>set (stored w). get_prop r (js ''status'') = JStr (js ''pending'')
                        \<or> get_prop r (js ''status'') = JStr (js ''editing''))"

text \<open>
  A burst of changes after which the observer stays quiet: each text differs from the one
  observed before it and arrives before the pending timeout is due.
\<close>

fun burst :: "jsstring \<Rightarrow> int \<Rightarrow> (jsstring \<times> env) list \<Rightarrow> bool" where
  "burst prev due [] = True"
| "burst prev due ((text, e) # rest) \<longleftrightarrow>
     text \<noteq> prev \<and> now e < due \<and> burst text (now e + ANALYSIS_DELAY) rest"

section \<open>Example inputs\<close>

text \<open>A pasted draft of 40 words and 250 characters, and the readings of a callback at time \<open>t\<close>.\<close>

definition pastedDraft :: jsstring where
  "pastedDraft = concat (replicate 39 (js ''abcde '')) @ js ''abcdefghijklmnop''"

definition at_time :: "int \<Rightarrow> env" where
  "at_time t = \<lparr>now = t, freshId = js ''draft_1'',
               isoDate = js ''2024-01-01T00:00:00.000Z'', stamp = t\<rparr>"

text \<open>The state after the paste is observed, 500 ms after the observer was created.\<close>

definition afterPaste :: tracker where
  "afterPaste = observer 0 pastedDraft (at_time 500) (monitorComposeWindow 0 0 initial)"

text \<open>Two texts that start and end with a space, of 34 and of 41 words.\<close>

definition paddedOriginal :: jsstring where
  "paddedOriginal = js '' '' @ concat (replicate 34 (js ''ab ''))"

definition paddedFinal :: jsstring where
  "paddedFinal = js '' '' @ concat (replicate 41 (js ''ab ''))"

text \<open>
  A text box that gets two observers.  The dialog 5 is open at start-up and its text box 0
  is observed; later a node containing text box 0 is added, and since only the dialog is
  in the set, the text box is monitored again 500 ms later.  Then the draft is pasted; the
  two callbacks read the same text and draw different identifiers.
\<close>

definition pasteEnv :: "nat \<Rightarrow> env" where
  "pasteEnv ob = (at_time 1500)\<lparr>freshId := (if ob = 0 then js ''draft_1'' else js ''draft_2'')\<rparr>"

definition doubleObserverRun :: "event list" where
  "doubleObserverRun =
     [ExistingWindow 5 (Some 0) 0, AddedNode [0], MonitorTimer 500,
      Mutation 0 pastedDraft pasteEnv]"

section \<open>Properties of the edit distance\<close>

lemma lev_rec_nil2 [simp]: "lev_rec xs [] = length xs"
  by (cases xs) simp_all

lemma lev_rec_refl [simp]: "lev_rec a a = 0"
  by (induction a) simp_all

lemma lev_rec_sym: "lev_rec a b = lev_rec b a"
  by (induction a b rule: lev_rec.induct) (simp_all add: min.commute min.left_commute eq_commute)

lemma lev_rec_del: "lev_rec (c # xs) b \<le> Suc (lev_rec xs b)"
  by (cases b) simp_all

lemma lev_rec_del2: "lev_rec xs (c # b) \<le> Suc (lev_rec xs b)"
  by (cases xs) simp_all

lemma lev_rec_ins: "lev_rec xs b \<le> Suc (lev_rec (c # xs) b)"
proof (induction b)
  case Nil
  then show ?case by simp
next
  case (Cons y ys)
  have "lev_rec xs (y # ys) \<le> Suc (lev_rec xs ys)" by (rule lev_rec_del2)
  with Cons show ?case by auto
qed

lemma lev_rec_sub: "lev_rec (c # xs) b \<le> Suc (lev_rec (c' # xs) b)"
proof (induction b)
  case Nil
  then show ?case by simp
next
  case (Cons y ys)
  then show ?case by auto
qed

lemma lev_rec_cong:
  assumes "\<And>b. lev_rec xs b \<le> Suc (lev_rec ys b)"
  shows "lev_rec (a # xs) b \<le> Suc (lev_rec (a # ys) b)"
proof (induction b)
  case Nil
  from assms[of "[]"] show ?case by simp
next
  case (Cons y b)
  from assms[of "y # b"] assms[of b] Cons show ?case by auto
qed

lemma lev_rec_context:
  assumes "\<And>b. lev_rec xs b \<le> Suc (lev_rec ys b)"
  shows "lev_rec (p @ xs) b \<le> Suc (lev_rec (p @ ys) b)"
  using assms by (induction p arbitrary: b) (simp_all add: lev_rec_cong)

lemma edit_step_lipschitz: "edit_step a a' \<Longrightarrow> lev_rec a b \<le> Suc (lev_rec a' b)"
proof (induction rule: edit_step.induct)
  case (insertion p s c)
  show ?case by (rule lev_rec_context) (rule lev_rec_ins)
next
  case (deletion p c s)
  show ?case by (rule lev_rec_context) (rule lev_rec_del)
next
  case (substitution p c s c')
  show ?case by (rule lev_rec_context) (rule lev_rec_sub)
qed

lemma edits_lower_bound: "edits n a b \<Longrightarrow> lev_rec a b \<le> n"
proof (induction rule: edits.induct)
  case (edits_done a)
  show ?case by simp
next
  case (edits_more a b n c)
  from edit_step_lipschitz[OF edits_more.hyps(1), of c] edits_more.IH show ?case by simp
qed

lemma edit_step_Cons: "edit_step a b \<Longrightarrow> edit_step (c # a) (c # b)"
proof (induction rule: edit_step.induct)
  case (insertion p s x)
  from edit_step.insertion[of "c # p" s x] show ?case by simp
next
  case (deletion p x s)
  from edit_step.deletion[of "c # p" x s] show ?case by simp
next
  case (substitution p x s y)
  from edit_step.substitution[of "c # p" x s y] show ?case by simp
qed

lemma edits_Cons: "edits n a b \<Longrightarrow> edits n (c # a) (c # b)"
  by (induction rule: edits.induct) (auto intro: edits.intros edit_step_Cons)

lemma edit_step_ins_front: "edit_step s (c # s)"
  using edit_step.insertion[of "[]" s c] by simp

lemma edit_step_del_front: "edit_step (c # s) s"
  using edit_step.deletion[of "[]" c s] by simp

lemma edit_step_sub_front: "edit_step (c # s) (c' # s)"
  using edit_step.substitution[of "[]" c s c'] by simp

lemma edits_insert_all: "edits (length ys) [] ys"
proof (induction ys)
  case Nil
  show ?case by (simp add: edits_done)
next
  case (Cons y ys)
  have "edit_step [] [y]" by (rule edit_step_ins_front)
  moreover from Cons have "edits (length ys) [y] (y # ys)" by (rule edits_Cons)
  ultimately show ?case by (simp add: edits_more)
qed

lemma edits_delete_all: "edits (length xs) xs []"
proof (induction xs)
  case Nil
  show ?case by (simp add: edits_done)
next
  case (Cons x xs)
  have "edit_step (x # xs) xs" by (rule edit_step_del_front)
  with Cons show ?case by (simp add: edits_more)
qed

lemma edits_lev_rec: "edits (lev_rec a b) a b"
proof (induction a b rule: lev_rec.induct)
  case (1 ys)
  show ?case by (simp add: edits_insert_all)
next
  case (2 x xs)
  from edits_delete_all[of "x # xs"] show ?case by simp
next
  case (3 x xs y ys)
  let ?del = "lev_rec xs (y # ys) + 1" and ?ins = "lev_rec (x # xs) ys + 1"
    and ?sub = "lev_rec xs ys + (if x = y then 0 else 1)"
  have del: "edits ?del (x # xs) (y # ys)"
    using edits_more[OF edit_step_del_front "3.IH"(1)] by simp
  have ins: "edits ?ins (x # xs) (y # ys)"
    using edits_more[OF edit_step_ins_front edits_Cons[OF "3.IH"(2)], of y] by simp
  have sub: "edits ?sub (x # xs) (y # ys)"
  proof (cases "x = y")
    case True
    with edits_Cons[OF "3.IH"(3), of y] show ?thesis by simp
  next
    case False
    with edits_more[OF edit_step_sub_front edits_Cons[OF "3.IH"(3)], of x y] show ?thesis by simp
  qed
  have "lev_rec (x # xs) (y # ys) = ?del \<or> lev_rec (x # xs) (y # ys) = ?ins
      \<or> lev_rec (x # xs) (y # ys) = ?sub"
    by (simp add: min_def)
  with del ins sub show ?case by metis
qed

lemma edit_step_rev: "edit_step a b \<Longrightarrow> edit_step (rev a) (rev b)"
proof (induction rule: edit_step.induct)
  case (insertion p s c)
  from edit_step.insertion[of "rev s" "rev p" c] show ?case by simp
next
  case (deletion p c s)
  from edit_step.deletion[of "rev s" c "rev p"] show ?case by simp
next
  case (substitution p c s c')
  from edit_step.substitution[of "rev s" c "rev p" c'] show ?case by simp
qed

lemma edits_rev: "edits n a b \<Longrightarrow> edits n (rev a) (rev b)"
  by (induction rule: edits.induct) (auto intro: edits.intros edit_step_rev)

lemma lev_rec_rev: "lev_rec (rev a) (rev b) = lev_rec a b"
proof (rule antisym)
  from edits_rev[OF edits_lev_rec[of a b]] show "lev_rec (rev a) (rev b) \<le> lev_rec a b"
    by (rule edits_lower_bound)
  from edits_rev[OF edits_lev_rec[of "rev a" "rev b"]] show "lev_rec a b \<le> lev_rec (rev a) (rev b)"
    by (simp add: edits_lower_bound)
qed

lemma dp_lev_rec:
  "i \<le> length a \<Longrightarrow> j \<le> length b \<Longrightarrow> dp a b i j = lev_rec (rev (take i a)) (rev (take j b))"
proof (induction a b i j rule: dp.induct)
  case (1 a b j)
  then show ?case by simp
next
  case (2 a b i)
  then show ?case by simp
next
  case (3 a b i j)
  then show ?case by (simp add: take_Suc_conv_app_nth)
qed

lemma dp_final: "dp a b (length a) (length b) = lev_rec a b"
  by (simp add: dp_lev_rec lev_rec_rev)

lemma for_loop_append:
  "for_loop (xs @ ys) body s = (case for_loop xs body s of None \<Rightarrow> None | Some s' \<Rightarrow> for_loop ys body s')"
  by (induction xs arbitrary: s) (auto split: option.splits)

lemma for_loop_invariant:
  assumes step: "\<And>i s. a \<le> i \<Longrightarrow> i < b \<Longrightarrow> I i s \<Longrightarrow> \<exists>s'. body i s = Some s' \<and> I (Suc i) s'"
    and "a \<le> b" and "I a s"
  shows "\<exists>s'. for_loop [a..<b] body s = Some s' \<and> I b s'"
proof -
  have "a \<le> c \<Longrightarrow> c \<le> b \<Longrightarrow> \<exists>s'. for_loop [a..<c] body s = Some s' \<and> I c s'" for c
  proof (induction c)
    case 0
    with assms(3) show ?case by simp
  next
    case (Suc c)
    show ?case
    proof (cases "a = Suc c")
      case True
      with assms(3) show ?thesis by simp
    next
      case False
      with Suc.prems have ac: "a \<le> c" and cb: "c < b" by simp_all
      from Suc.IH ac cb obtain s1 where s1: "for_loop [a..<c] body s = Some s1" "I c s1"
        by auto
      from step[OF ac cb s1(2)] obtain s2 where s2: "body c s1 = Some s2" "I (Suc c) s2" by auto
      from ac s1 s2 show ?thesis by (simp add: for_loop_append)
    qed
  qed
  from this[of b] assms(2) show ?thesis by simp
qed

lemma js_set_append [simp]: "js_set xs (length xs) v = xs @ [Some v]"
  by (simp add: js_set_def)

lemma js_set_update: "i < length xs \<Longrightarrow> js_set xs i v = xs[i := Some v]"
  by (simp add: js_set_def)

lemma js_get_nth: "i < length xs \<Longrightarrow> js_get xs i = xs ! i"
  by (simp add: js_get_def)

lemma init_rows_eq: "init_rows n = map (\<lambda>i. Some [Some (Some i)]) [0..<Suc n]"
proof -
  have "fold (\<lambda>i m. js_set m i [Some (Some i)]) [0..<k] [] = map (\<lambda>i. Some [Some (Some i)]) [0..<k]" for k
  proof (induction k)
    case 0
    show ?case by simp
  next
    case (Suc k)
    have "js_set (map (\<lambda>i. Some [Some (Some i)]) [0..<k]) k [Some (Some k)]
        = map (\<lambda>i. Some [Some (Some i)]) [0..<k] @ [Some [Some (Some k)]]"
      using js_set_append[of "map (\<lambda>i. Some [Some (Some i)]) [0..<k]" "[Some (Some k)]"] by simp
    with Suc show ?case by simp
  qed
  then show ?thesis by (simp only: init_rows_def)
qed

lemma dp_row_Suc: "dp_row a b i (Suc j) = dp_row a b i j @ [Some (Some (dp a b i (Suc j)))]"
  by (simp add: dp_row_def)

lemma dp_row_length [simp]: "length (dp_row a b i j) = Suc j"
  by (simp add: dp_row_def)

lemma dp_row_nth: "c \<le> j \<Longrightarrow> dp_row a b i j ! c = Some (Some (dp a b i c))"
  unfolding dp_row_def by (simp only: nth_map_upt) simp

lemma dp_Suc_0: "dp a b i 0 = i"
  by (cases i) simp_all

lemma dp_inv_init: "dp_inv a b 0 0 (init_rows (length a))"
  unfolding dp_inv_def init_rows_eq dp_row_def
  by (auto simp add: nth_append)

lemma cell_dp_row:
  assumes "i < length m" "m ! i = Some (dp_row a b i j)" "c \<le> j"
  shows "cell m i c = Some (Some (dp a b i c))"
  using assms by (simp add: cell_def js_get_def dp_row_nth)

lemma set_cell_dp_row:
  assumes "i < length m" "m ! i = Some (dp_row a b i j)"
  shows "set_cell m i (Suc j) (Some (dp a b i (Suc j))) = Some (m[i := Some (dp_row a b i (Suc j))])"
  using assms by (simp add: set_cell_def js_get_def js_set_def dp_row_Suc)

lemma init_cols_step:
  assumes "dp_inv a b 0 j m"
  shows "set_cell m 0 (Suc j) (Some (Suc j)) = Some (m[0 := Some (dp_row a b 0 (Suc j))])"
  using assms set_cell_dp_row[of 0 m a b j] by (simp add: dp_inv_def)

lemma init_cols_first:
  "set_cell (init_rows (length a)) 0 0 (Some 0) = Some (init_rows (length a))"
  unfolding init_rows_eq
  by (simp add: set_cell_def js_get_def js_set_def upt_rec[of 0] del: upt_Suc)

lemma dp_inv_update:
  assumes "dp_inv a b k j m" "k \<le> length a"
  shows "dp_inv a b k (Suc j) (m[k := Some (dp_row a b k (Suc j))])"
  using assms by (auto simp add: dp_inv_def)

lemma dp_inv_next_row:
  assumes "dp_inv a b k (length b) m" "k < length a"
  shows "dp_inv a b (Suc k) 0 m"
  using assms by (auto simp add: dp_inv_def dp_row_def less_Suc_eq)

lemma init_cols_dp_inv:
  "\<exists>m. init_cols (length b) (init_rows (length a)) = Some m \<and> dp_inv a b 0 (length b) m"
proof -
  let ?I = "\<lambda>j m. if j = 0 then m = init_rows (length a) else dp_inv a b 0 (j - 1) m"
  have "\<exists>m. for_loop [0..<Suc (length b)] (\<lambda>j m. set_cell m 0 j (Some j)) (init_rows (length a)) = Some m
      \<and> ?I (Suc (length b)) m"
  proof (rule for_loop_invariant)
    fix j m
    assume I: "?I j m"
    show "\<exists>m'. set_cell m 0 j (Some j) = Some m' \<and> ?I (Suc j) m'"
    proof (cases j)
      case 0
      with I show ?thesis by (simp add: init_cols_first dp_inv_init)
    next
      case (Suc j')
      with I have inv: "dp_inv a b 0 j' m" by simp
      from init_cols_step[OF inv] dp_inv_update[OF inv] Suc show ?thesis by simp
    qed
  qed simp_all
  then show ?thesis by (simp add: init_cols_def)
qed

lemma fill_cell_dp_inv:
  assumes inv: "dp_inv a b (Suc k) j m" and k: "k < length a" and j: "j < length b"
  shows "fill_cell a b (Suc k) (Suc j) m = Some (m[Suc k := Some (dp_row a b (Suc k) (Suc j))])"
proof -
  from inv k have len: "Suc k < length m" "k < length m" by (simp_all add: dp_inv_def)
  from inv have rk: "m ! k = Some (dp_row a b k (length b))"
    and rk1: "m ! Suc k = Some (dp_row a b (Suc k) j)" by (simp_all add: dp_inv_def)
  from j have up: "cell m k (Suc j) = Some (Some (dp a b k (Suc j)))"
    by (intro cell_dp_row[OF len(2) rk]) simp
  from j have diag: "cell m k j = Some (Some (dp a b k j))"
    by (intro cell_dp_row[OF len(2) rk]) simp
  have left: "cell m (Suc k) j = Some (Some (dp a b (Suc k) j))"
    by (intro cell_dp_row[OF len(1) rk1]) simp
  from k j have cost: "(char_at a k = char_at b j) = (a ! k = b ! j)"
    by (simp add: char_at_def)
  have "math_min3 (js_plus (Some (dp a b k (Suc j))) 1) (js_plus (Some (dp a b (Suc k) j)) 1)
          (js_plus (Some (dp a b k j)) (if char_at a k = char_at b j then 0 else 1))
        = Some (dp a b (Suc k) (Suc j))"
    by (simp add: js_plus_def cost)
  with up diag left set_cell_dp_row[OF len(1) rk1] show ?thesis
    by (simp add: fill_cell_def Let_def)
qed

lemma fill_row_dp_inv:
  assumes inv: "dp_inv a b (Suc k) 0 m" and k: "k < length a"
  shows "\<exists>m'. fill_row a b (Suc k) m = Some m' \<and> dp_inv a b (Suc k) (length b) m'"
proof -
  let ?I = "\<lambda>j m. dp_inv a b (Suc k) (j - 1) m"
  have "\<exists>m'. for_loop [1..<Suc (length b)] (fill_cell a b (Suc k)) m = Some m'
      \<and> ?I (Suc (length b)) m'"
  proof (rule for_loop_invariant)
    fix j m
    assume j: "1 \<le> j" "j < Suc (length b)" and I: "?I j m"
    from j obtain j' where j': "j = Suc j'" "j' < length b" by (cases j) auto
    with I have inv': "dp_inv a b (Suc k) j' m" by simp
    from fill_cell_dp_inv[OF inv' k j'(2)] dp_inv_update[OF inv'] k j'
    show "\<exists>m'. fill_cell a b (Suc k) j m = Some m' \<and> ?I (Suc j) m'" by simp
  next
    show "1 \<le> Suc (length b)" by simp
  next
    from inv show "?I 1 m" by simp
  qed
  then show ?thesis by (simp add: fill_row_def)
qed

lemma fill_rows_dp_inv:
  assumes inv: "dp_inv a b 0 (length b) m"
  shows "\<exists>m'. for_loop [1..<Suc (length a)] (fill_row a b) m = Some m'
      \<and> dp_inv a b (length a) (length b) m'"
proof -
  let ?I = "\<lambda>i m. dp_inv a b (i - 1) (length b) m"
  have "\<exists>m'. for_loop [1..<Suc (length a)] (fill_row a b) m = Some m' \<and> ?I (Suc (length a)) m'"
  proof (rule for_loop_invariant)
    fix i m
    assume i: "1 \<le> i" "i < Suc (length a)" and I: "?I i m"
    from i obtain k where k: "i = Suc k" "k < length a" by (cases i) auto
    with I have "dp_inv a b k (length b) m" by simp
    then have "dp_inv a b (Suc k) 0 m" using k(2) by (rule dp_inv_next_row)
    from fill_row_dp_inv[OF this k(2)] k
    show "\<exists>m'. fill_row a b i m = Some m' \<and> ?I (Suc i) m'" by simp
  next
    show "1 \<le> Suc (length a)" by simp
  next
    from inv show "?I 1 m" by simp
  qed
  then show ?thesis by simp
qed

lemma levenshteinDistance_dp:
  "levenshteinDistance a b = Some (Some (dp a b (length a) (length b)))"
proof -
  obtain m1 where m1: "init_cols (length b) (init_rows (length a)) = Some m1"
    "dp_inv a b 0 (length b) m1"
    using init_cols_dp_inv[of b a] by blast
  obtain m2 where m2: "for_loop [1..<Suc (length a)] (fill_row a b) m1 = Some m2"
    "dp_inv a b (length a) (length b) m2"
    using fill_rows_dp_inv[OF m1(2)] by blast
  from m2(2) have "length a < length m2" "m2 ! length a = Some (dp_row a b (length a) (length b))"
    by (simp_all add: dp_inv_def)
  then have "cell m2 (length a) (length b) = Some (Some (dp a b (length a) (length b)))"
    by (rule cell_dp_row) simp
  with m1(1) m2(1) show ?thesis by (simp add: levenshteinDistance_def Let_def)
qed

lemma levenshteinDistance_lev_rec: "levenshteinDistance a b = Some (Some (lev_rec a b))"
  by (simp add: levenshteinDistance_dp dp_final)

text \<open>
  C4: for all strings \<open>A\<close> and \<open>B\<close>, \<open>levenshteinDistance(A, B)\<close> returns a number, that
  many single-character insertions, deletions and substitutions transform \<open>A\<close> into \<open>B\<close>,
  and no smaller number of such edits does.
\<close>

theorem levenshteinDistance_minimal_edits:
  "\<exists>d. levenshteinDistance A B = Some (Some d) \<and> edits d A B \<and> (\<forall>n. edits n A B \<longrightarrow> d \<le> n)"
  using edits_lev_rec[of A B] edits_lower_bound[of _ A B]
  by (simp add: levenshteinDistance_lev_rec)

theorem levenshteinDistance_minimal_edits_witness:
  "edits 2 ''flaw'' ''lawn'' \<and>
   (\<exists>d. levenshteinDistance ''flaw'' ''lawn'' = Some (Some d) \<and> edits d ''flaw'' ''lawn'' \<and> d \<le> 2)"
proof -
  have s1: "edit_step ''flaw'' ''law''"
    using edit_step.deletion[of "[]" "CHR ''f''" "''law''"] by simp
  have s2: "edit_step ''law'' ''lawn''"
    using edit_step.insertion[of "''law''" "[]" "CHR ''n''"] by simp
  have e: "edits 2 ''flaw'' ''lawn''"
    using edits_more[OF s1 edits_more[OF s2 edits_done]] by (simp add: numeral_2_eq_2)
  with levenshteinDistance_minimal_edits[of "''flaw''" "''lawn''"] show ?thesis by blast
qed

text \<open>
  C8: for all strings \<open>A\<close> and \<open>B\<close>, the distance from \<open>A\<close> to itself is 0, the distance is
  symmetric, and the distance from the empty string to \<open>B\<close> is the length of \<open>B\<close>.
\<close>

theorem levenshteinDistance_algebra:
  "levenshteinDistance A A = Some (Some 0) \<and>
   levenshteinDistance A B = levenshteinDistance B A \<and>
   levenshteinDistance [] B = Some (Some (length B))"
  using lev_rec_sym[of A B] by (simp add: levenshteinDistance_lev_rec)

section \<open>Properties of the rounding\<close>

lemma fl_0 [simp]: "fl 0 = 0"
  by (simp add: fl_def)

lemma floor_half [simp]: "\<lfloor>1 / 2 :: rat\<rfloor> = 0"
  by (simp add: floor_eq_iff)

lemma ilog2_bounds:
  "1 \<le> n \<Longrightarrow> 0 \<le> ilog2 n \<and> 2 ^ nat (ilog2 n) \<le> n \<and> n < 2 * 2 ^ nat (ilog2 n)"
proof (induction n rule: ilog2.induct)
  case (1 n)
  show ?case
  proof (cases "n < 2")
    case True
    with "1.prems" have "n = 1" by simp
    then show ?thesis by (simp add: ilog2.simps)
  next
    case False
    then have h: "1 \<le> n div 2" by simp
    from "1.IH"[OF False h] have ih: "0 \<le> ilog2 (n div 2)"
      "2 ^ nat (ilog2 (n div 2)) \<le> n div 2" "n div 2 < 2 * 2 ^ nat (ilog2 (n div 2))"
      by simp_all
    from False have eq: "ilog2 n = 1 + ilog2 (n div 2)" by (simp add: ilog2.simps)
    from ih(1) have p: "(2::int) ^ nat (1 + ilog2 (n div 2)) = 2 * 2 ^ nat (ilog2 (n div 2))"
      by (simp add: nat_add_distrib)
    from ih show ?thesis unfolding eq p by auto
  qed
qed

lemma binade_bounds:
  assumes "0 < q"
  shows "2 powi (binade q) \<le> q \<and> q < 2 powi (binade q + 1)"
proof (cases "1 \<le> q")
  case True
  then have f1: "1 \<le> \<lfloor>q\<rfloor>" by simp
  let ?e = "ilog2 \<lfloor>q\<rfloor>"
  from ilog2_bounds[OF f1] have e: "0 \<le> ?e" "2 ^ nat ?e \<le> \<lfloor>q\<rfloor>" "\<lfloor>q\<rfloor> < 2 * 2 ^ nat ?e"
    by simp_all
  from e(2) have "(of_int (2 ^ nat ?e) :: rat) \<le> of_int \<lfloor>q\<rfloor>" by (simp only: of_int_le_iff)
  then have lo: "(2::rat) ^ nat ?e \<le> q" by (simp add: le_floor_iff)
  from e(3) have "\<lfloor>q\<rfloor> + 1 \<le> 2 * 2 ^ nat ?e" by simp
  then have "(of_int (\<lfloor>q\<rfloor> + 1) :: rat) \<le> of_int (2 * 2 ^ nat ?e)" by (simp only: of_int_le_iff)
  moreover have "q < of_int (\<lfloor>q\<rfloor> + 1)" using floor_correct[of q] by blast
  ultimately have hi: "q < 2 * 2 ^ nat ?e" by simp
  from e(1) have "(2::rat) powi ?e = 2 ^ nat ?e" "(2::rat) powi (?e + 1) = 2 * 2 ^ nat ?e"
    by (simp_all add: power_int_def nat_add_distrib)
  with lo hi True show ?thesis by (simp add: binade_def)
next
  case False
  with assms have q: "0 < q" "q < 1" by simp_all
  then have x: "1 < 1 / q" by simp
  let ?c = "\<lceil>1 / q\<rceil>"
  from x have c2: "1 \<le> ?c - 1" by (simp add: less_ceiling_iff)
  let ?k = "ilog2 (?c - 1)"
  from ilog2_bounds[OF c2] have k: "0 \<le> ?k" "2 ^ nat ?k \<le> ?c - 1" "?c - 1 < 2 * 2 ^ nat ?k"
    by simp_all
  have "of_int (?c - 1) < 1 / q" using ceiling_correct[of "1 / q"] by simp
  moreover from k(2) have "(of_int (2 ^ nat ?k) :: rat) \<le> of_int (?c - 1)" by (simp only: of_int_le_iff)
  ultimately have a: "(2::rat) ^ nat ?k < 1 / q" by simp
  from k(3) have "?c \<le> 2 * 2 ^ nat ?k" by simp
  then have "(of_int ?c :: rat) \<le> of_int (2 * 2 ^ nat ?k)" by (simp only: of_int_le_iff)
  also have "(of_int (2 * 2 ^ nat ?k) :: rat) = 2 * 2 ^ nat ?k" by simp
  finally have "(of_int ?c :: rat) \<le> 2 * 2 ^ nat ?k" .
  moreover have "1 / q \<le> of_int ?c" by (rule le_of_int_ceiling)
  ultimately have b: "1 / q \<le> 2 * 2 ^ nat ?k" by (rule order_trans[rotated])
  from a q have hi: "q < 1 / 2 ^ nat ?k" by (simp add: field_simps)
  from b q have lo: "1 / (2 * 2 ^ nat ?k) \<le> q" by (simp add: field_simps)
  have bin: "binade q = - (?k + 1)" using False by (simp add: binade_def)
  from k(1) have "(2::rat) powi (- (?k + 1)) = 1 / (2 * 2 ^ nat ?k)"
    "(2::rat) powi (- (?k + 1) + 1) = 1 / 2 ^ nat ?k"
    by (simp_all add: power_int_def nat_add_distrib field_simps)
  with lo hi show ?thesis unfolding bin by simp
qed

lemma round_half_even_bounds:
  "of_int (round_half_even x) \<le> x + 1 / 2" "x - 1 / 2 \<le> of_int (round_half_even x)"
proof -
  let ?f = "\<lfloor>x\<rfloor>"
  have f: "of_int ?f \<le> x" "x < of_int ?f + 1" by linarith+
  consider "x - of_int ?f < 1 / 2" | "1 / 2 < x - of_int ?f"
    | "x - of_int ?f = 1 / 2" "even ?f" | "x - of_int ?f = 1 / 2" "odd ?f"
    by fastforce
  then have "of_int (round_half_even x) \<le> x + 1 / 2 \<and> x - 1 / 2 \<le> of_int (round_half_even x)"
  proof cases
    case 1
    then have r: "round_half_even x = ?f" by (simp add: round_half_even_def Let_def)
    show ?thesis unfolding r using f 1 by linarith
  next
    case 2
    then have r: "round_half_even x = ?f + 1" by (simp add: round_half_even_def Let_def)
    show ?thesis unfolding r of_int_add of_int_1 using f 2 by linarith
  next
    case 3
    then have r: "round_half_even x = ?f" by (simp add: round_half_even_def Let_def)
    show ?thesis unfolding r using f 3 by linarith
  next
    case 4
    then have r: "round_half_even x = ?f + 1" by (simp add: round_half_even_def Let_def)
    show ?thesis unfolding r of_int_add of_int_1 using f 4 by linarith
  qed
  then show "of_int (round_half_even x) \<le> x + 1 / 2" "x - 1 / 2 \<le> of_int (round_half_even x)"
    by simp_all
qed

lemma round_half_even_mono:
  assumes "x \<le> y"
  shows "round_half_even x \<le> round_half_even y"
proof (cases "x = y")
  case True
  then show ?thesis by simp
next
  case False
  with assms have "x < y" by simp
  with round_half_even_bounds(1)[of x] round_half_even_bounds(2)[of y]
  have "(of_int (round_half_even x) :: rat) < of_int (round_half_even y) + 1" by linarith
  then have "(of_int (round_half_even x) :: rat) < of_int (round_half_even y + 1)" by simp
  then have "round_half_even x < round_half_even y + 1" by (simp only: of_int_less_iff)
  then show ?thesis by simp
qed

lemma round_half_even_of_int [simp]: "round_half_even (of_int k) = k"
  by (simp add: round_half_even_def)

lemma fl_pos:
  assumes "0 < q"
  shows "fl q = of_int (round_half_even (q / 2 powi (binade q - 52))) * 2 powi (binade q - 52)"
  using assms by (simp add: fl_def Let_def)

lemma scaled_bounds:
  assumes "0 < q"
  shows "2 ^ 52 \<le> q / 2 powi (binade q - 52)" "q / 2 powi (binade q - 52) \<le> 2 ^ 53"
proof -
  let ?u = "(2::rat) powi (binade q - 52)"
  have u: "0 < ?u" by simp
  have a: "2 powi (binade q) = 2 ^ 52 * ?u"
    by (simp add: power_int_diff)
  have b: "2 powi (binade q + 1) = 2 ^ 53 * ?u"
    by (simp add: power_int_diff power_int_add)
  from binade_bounds[OF assms] a b have "2 ^ 52 * ?u \<le> q" "q \<le> 2 ^ 53 * ?u" by simp_all
  with u show "2 ^ 52 \<le> q / ?u" "q / ?u \<le> 2 ^ 53"
    by (simp_all add: pos_le_divide_eq pos_divide_le_eq)
qed

lemma fl_bounds:
  assumes "0 < q"
  shows "2 powi (binade q) \<le> fl q" "fl q \<le> 2 powi (binade q + 1)"
proof -
  let ?u = "(2::rat) powi (binade q - 52)"
  let ?n = "round_half_even (q / ?u)"
  have u: "0 < ?u" by simp
  have a: "2 powi (binade q) = 2 ^ 52 * ?u"
    by (simp add: power_int_diff)
  have b: "2 powi (binade q + 1) = 2 ^ 53 * ?u"
    by (simp add: power_int_diff power_int_add)
  from round_half_even_mono[OF scaled_bounds(1)[OF assms]]
  have "round_half_even (of_int (2 ^ 52)) \<le> ?n" by simp
  then have "2 ^ 52 \<le> ?n" by (simp only: round_half_even_of_int)
  then have lo: "(2::rat) ^ 52 \<le> of_int ?n" by (metis of_int_le_iff of_int_numeral of_int_power)
  from round_half_even_mono[OF scaled_bounds(2)[OF assms]]
  have "?n \<le> round_half_even (of_int (2 ^ 53))" by simp
  then have "?n \<le> 2 ^ 53" by (simp only: round_half_even_of_int)
  then have hi: "of_int ?n \<le> (2::rat) ^ 53" by (metis of_int_le_iff of_int_numeral of_int_power)
  from lo u have "2 ^ 52 * ?u \<le> of_int ?n * ?u" by (simp only: mult_le_cancel_right_pos)
  then show "2 powi (binade q) \<le> fl q" unfolding fl_pos[OF assms] a .
  from hi u have "of_int ?n * ?u \<le> 2 ^ 53 * ?u" by (simp only: mult_le_cancel_right_pos)
  then show "fl q \<le> 2 powi (binade q + 1)" unfolding fl_pos[OF assms] b .
qed

lemma fl_nonneg: "0 \<le> q \<Longrightarrow> 0 \<le> fl q"
proof (cases "q = 0")
  case True
  then show ?thesis by simp
next
  case False
  assume "0 \<le> q"
  with False have "0 < q" by simp
  from fl_bounds(1)[OF this] have "2 powi (binade q) \<le> fl q" .
  moreover have "(0::rat) < 2 powi (binade q)" by simp
  ultimately show ?thesis by linarith
qed

lemma binade_mono:
  assumes "0 < q" "q \<le> r"
  shows "binade q \<le> binade r"
proof -
  from assms have r: "0 < r" by simp
  from binade_bounds[OF assms(1)] binade_bounds[OF r] assms(2)
  have lt: "(2::rat) powi (binade q) < 2 powi (binade r + 1)" by linarith
  show ?thesis
  proof (rule ccontr)
    assume "\<not> binade q \<le> binade r"
    then have "binade r + 1 \<le> binade q" by simp
    then have "(2::rat) powi (binade r + 1) \<le> 2 powi (binade q)"
      by (rule power_int_increasing) simp
    with lt show False by simp
  qed
qed

lemma fl_mono:
  assumes "0 \<le> q" "q \<le> r"
  shows "fl q \<le> fl r"
proof (cases "q = 0")
  case True
  with assms fl_nonneg[of r] show ?thesis by simp
next
  case False
  with assms have q: "0 < q" and r: "0 < r" by simp_all
  show ?thesis
  proof (cases "binade q = binade r")
    case True
    let ?u = "(2::rat) powi (binade r - 52)"
    have u: "0 < ?u" by simp
    from assms(2) u have "q / ?u \<le> r / ?u" by (intro divide_right_mono) simp_all
    then have "round_half_even (q / ?u) \<le> round_half_even (r / ?u)" by (rule round_half_even_mono)
    then have "(of_int (round_half_even (q / ?u)) :: rat) \<le> of_int (round_half_even (r / ?u))"
      by (simp only: of_int_le_iff)
    with u have "of_int (round_half_even (q / ?u)) * ?u \<le> of_int (round_half_even (r / ?u)) * ?u"
      by (simp only: mult_le_cancel_right_pos)
    then show ?thesis unfolding fl_pos[OF q] fl_pos[OF r] True .
  next
    case False
    with binade_mono[OF q assms(2)] have "binade q + 1 \<le> binade r" by simp
    then have "(2::rat) powi (binade q + 1) \<le> 2 powi (binade r)"
      by (rule power_int_increasing) simp
    with fl_bounds(2)[OF q] fl_bounds(1)[OF r] show ?thesis by linarith
  qed
qed

lemma fl_1 [simp]: "fl 1 = 1"
  by code_simp

lemma fl_100 [simp]: "fl 100 = 100"
  by code_simp

section \<open>Properties of the tracker\<close>

lemma findIndex_None: "findIndex p xs = None \<longleftrightarrow> (\<forall>x\<in>set xs. \<not> p x)"
  by (induction xs) auto

lemma findIndex_Some:
  "findIndex p xs = Some i \<Longrightarrow> i < length xs \<and> p (xs ! i) \<and> (\<forall>j<i. \<not> p (xs ! j))"
proof (induction xs arbitrary: i)
  case Nil
  then show ?case by simp
next
  case (Cons x xs)
  show ?case
  proof (cases "p x")
    case True
    with Cons.prems show ?thesis by simp
  next
    case False
    with Cons.prems obtain i' where i': "findIndex p xs = Some i'" "i = Suc i'" by auto
    from Cons.IH[OF i'(1)] False i'(2) show ?thesis by (auto simp add: less_Suc_eq_0_disj)
  qed
qed

lemma stored_update_calls [simp]: "stored (w\<lparr>calls := c\<rparr>) = stored w"
  by (simp add: stored_def)

lemma stored_update_drafts [simp]: "stored (w\<lparr>drafts := Some ds\<rparr>) = ds"
  by (simp add: stored_def)

lemma updateDraftWithAnalysis_absent:
  assumes "findIndex (\<lambda>d. get_prop d (js ''id'') = JStr draftId) (stored w) = None"
  shows "updateDraftWithAnalysis draftId a w = w\<lparr>calls := calls w @ [UpdateDraftWithAnalysis draftId]\<rparr>"
  using assms by (simp add: updateDraftWithAnalysis_def Let_def)

lemma updateDraftWithAnalysis_present:
  assumes "findIndex (\<lambda>d. get_prop d (js ''id'') = JStr draftId) (stored w) = Some i"
  shows "updateDraftWithAnalysis draftId a w =
           w\<lparr>calls := calls w @ [UpdateDraftWithAnalysis draftId],
             drafts := Some ((stored w)[i := merged (stored w ! i) a])\<rparr>"
  using assms by (simp add: updateDraftWithAnalysis_def Let_def merged_def)

lemma merged_other_keys: "k \<notin> analysisKeys \<Longrightarrow> merged r a k = r k"
  by (simp add: merged_def analysisKeys_def map_add_def)

lemma merged_analysis_keys:
  "k \<in> analysisKeys \<Longrightarrow> k \<noteq> js ''status'' \<Longrightarrow> merged r a k = Some (get_prop a k)"
  by (auto simp add: merged_def analysisKeys_def map_add_def js_def)

lemma merged_status:
  "merged r a (js ''status'') =
     Some (if truthy (get_prop a (js ''status'')) then get_prop a (js ''status'') else JStr (js ''editing''))"
  by (simp add: merged_def map_add_def)

text \<open>
  C10: \<open>updateDraftWithAnalysis\<close> leaves the stored list unchanged when no record has the
  given id.  When a record has it, the first such record is the only one rewritten: the
  list keeps its length, every other record is unchanged, the rewritten record keeps its
  properties outside the analysis fields and takes the analysis fields from the argument.
\<close>

theorem updateDraftWithAnalysis_frame:
  "((\<forall>d\<in>set (stored w). get_prop d (js ''id'') \<noteq> JStr draftId) \<longrightarrow>
      drafts (updateDraftWithAnalysis draftId a w) = drafts w) \<and>
   ((\<exists>d\<in>set (stored w). get_prop d (js ''id'') = JStr draftId) \<longrightarrow>
      (\<exists>i<length (stored w).
          get_prop (stored w ! i) (js ''id'') = JStr draftId \<and>
          (\<forall>j<i. get_prop (stored w ! j) (js ''id'') \<noteq> JStr draftId) \<and>
          length (stored (updateDraftWithAnalysis draftId a w)) = length (stored w) \<and>
          (\<forall>j<length (stored w). j \<noteq> i \<longrightarrow>
             stored (updateDraftWithAnalysis draftId a w) ! j = stored w ! j) \<and>
          (\<forall>k. k \<notin> analysisKeys \<longrightarrow>
             (stored (updateDraftWithAnalysis draftId a w) ! i) k = (stored w ! i) k) \<and>
          (\<forall>k\<in>analysisKeys. k \<noteq> js ''status'' \<longrightarrow>
             (stored (updateDraftWithAnalysis draftId a w) ! i) k = Some (get_prop a k))))"
proof (intro conjI impI)
  assume "\<forall>d\<in>set (stored w). get_prop d (js ''id'') \<noteq> JStr draftId"
  then have "findIndex (\<lambda>d. get_prop d (js ''id'') = JStr draftId) (stored w) = None"
    by (simp add: findIndex_None)
  then show "drafts (updateDraftWithAnalysis draftId a w) = drafts w"
    by (simp add: updateDraftWithAnalysis_absent)
next
  assume "\<exists>d\<in>set (stored w). get_prop d (js ''id'') = JStr draftId"
  then have "findIndex (\<lambda>d. get_prop d (js ''id'') = JStr draftId) (stored w) \<noteq> None"
    by (simp add: findIndex_None)
  then obtain i where i: "findIndex (\<lambda>d. get_prop d (js ''id'') = JStr draftId) (stored w) = Some i"
    by blast
  note props = findIndex_Some[OF i]
  have st: "stored (updateDraftWithAnalysis draftId a w) = (stored w)[i := merged (stored w ! i) a]"
    by (simp add: updateDraftWithAnalysis_present[OF i])
  show "\<exists>i<length (stored w).
          get_prop (stored w ! i) (js ''id'') = JStr draftId \<and>
          (\<forall>j<i. get_prop (stored w ! j) (js ''id'') \<noteq> JStr draftId) \<and>
          length (stored (updateDraftWithAnalysis draftId a w)) = length (stored w) \<and>
          (\<forall>j<length (stored w). j \<noteq> i \<longrightarrow>
             stored (updateDraftWithAnalysis draftId a w) ! j = stored w ! j) \<and>
          (\<forall>k. k \<notin> analysisKeys \<longrightarrow>
             (stored (updateDraftWithAnalysis draftId a w) ! i) k = (stored w ! i) k) \<and>
          (\<forall>k\<in>analysisKeys. k \<noteq> js ''status'' \<longrightarrow>
             (stored (updateDraftWithAnalysis draftId a w) ! i) k = Some (get_prop a k))"
  proof (intro exI[of _ i] conjI)
    from props show "i < length (stored w)" by simp
    from props show "get_prop (stored w ! i) (js ''id'') = JStr draftId" by simp
    from props show "\<forall>j<i. get_prop (stored w ! j) (js ''id'') \<noteq> JStr draftId" by simp
    show "length (stored (updateDraftWithAnalysis draftId a w)) = length (stored w)"
      by (simp add: st)
    show "\<forall>j<length (stored w). j \<noteq> i \<longrightarrow>
        stored (updateDraftWithAnalysis draftId a w) ! j = stored w ! j"
      by (simp add: st)
    from props show "\<forall>k. k \<notin> analysisKeys \<longrightarrow>
        (stored (updateDraftWithAnalysis draftId a w) ! i) k = (stored w ! i) k"
      by (simp add: st merged_other_keys)
    from props show "\<forall>k\<in>analysisKeys. k \<noteq> js ''status'' \<longrightarrow>
        (stored (updateDraftWithAnalysis draftId a w) ! i) k = Some (get_prop a k)"
      by (simp add: st merged_analysis_keys)
  qed
qed

lemma detections_append [simp]: "detections tb (cs @ cs') = detections tb cs + detections tb cs'"
  by (induction tb cs rule: detections.induct) simp_all

lemma analysisTexts_append [simp]: "analysisTexts (cs @ cs') = analysisTexts cs @ analysisTexts cs'"
  by (induction cs rule: analysisTexts.induct) simp_all

lemma detections_replicate_Fetch [simp]: "detections tb (replicate n Fetch) = 0"
  by (induction n) simp_all

lemma analysisTexts_replicate_Fetch [simp]: "analysisTexts (replicate n Fetch) = []"
  by (induction n) simp_all

subsection \<open>What each function changes\<close>

lemma storeDraft_fields [simp]:
  "currentDraft (storeDraft d w) = currentDraft w"
  "surfaces (storeDraft d w) = surfaces w"
  "inFlight (storeDraft d w) = inFlight w"
  "calls (storeDraft d w) = calls w @ [StoreDraft (draft_id d)]"
  by (simp_all add: storeDraft_def Let_def)

lemma storeDraft_stored:
  "\<exists>r. stored (storeDraft d w) = stored w @ [r] \<and> get_prop r (js ''status'') = JStr (js ''pending'')"
  by (simp add: storeDraft_def Let_def get_prop_def)

lemma stored_updates [simp]:
  "stored (w\<lparr>currentDraft := c\<rparr>) = stored w"
  "stored (w\<lparr>surfaces := f\<rparr>) = stored w"
  "stored (w\<lparr>inFlight := l\<rparr>) = stored w"
  "stored (w\<lparr>observerCount := n\<rparr>) = stored w"
  "stored (w\<lparr>watchedComposeWindows := ws\<rparr>) = stored w"
  "stored (w\<lparr>scheduled := tbs\<rparr>) = stored w"
  by (simp_all add: stored_def)

lemma handle_fields [simp]:
  "surfaces (handleFridayDraftDetected tb text e w) = surfaces w"
  "inFlight (handleFridayDraftDetected tb text e w) = inFlight w"
  "calls (handleFridayDraftDetected tb text e w) =
     calls w @ [HandleFridayDraftDetected tb text, StoreDraft (freshId e)]"
  "currentDraft (handleFridayDraftDetected tb text e w) \<noteq> None"
  by (simp_all add: handleFridayDraftDetected_def Let_def)

lemma handle_stored:
  "\<exists>r. stored (handleFridayDraftDetected tb text e w) = stored w @ [r]
       \<and> get_prop r (js ''status'') = JStr (js ''pending'')"
  using storeDraft_stored[of _ "w\<lparr>currentDraft := c, calls := l\<rparr>" for c l]
  by (simp add: handleFridayDraftDetected_def Let_def)

lemma observer_same:
  "surfaces w ob = Some s \<Longrightarrow> text = lastText s \<Longrightarrow> observer ob text e w = w"
  by (simp add: observer_def)

lemma observer_unattached: "surfaces w ob = None \<Longrightarrow> observer ob text e w = w"
  by (simp add: observer_def)

lemma observer_detect:
  assumes "surfaces w ob = Some s" "text \<noteq> lastText s" "pastePattern s text (now e)"
  shows "observer ob text e w =
     (handleFridayDraftDetected (textBox s) text e w)\<lparr>surfaces := (surfaces w)(ob \<mapsto>
        s\<lparr>fridayDraftDetected := True, analysisTimer := Some (now e + ANALYSIS_DELAY, text),
          lastText := text, lastChangeTime := now e\<rparr>)\<rparr>"
  using assms by (simp add: observer_def Let_def)

lemma observer_track:
  assumes "surfaces w ob = Some s" "text \<noteq> lastText s" "\<not> pastePattern s text (now e)"
  shows "observer ob text e w =
     w\<lparr>surfaces := (surfaces w)(ob \<mapsto>
        (if fridayDraftDetected s \<and> currentDraft w \<noteq> None
         then s\<lparr>analysisTimer := Some (now e + ANALYSIS_DELAY, text)\<rparr> else s)
        \<lparr>lastText := text, lastChangeTime := now e\<rparr>)\<rparr>"
  using assms by (cases "fridayDraftDetected s \<and> currentDraft w \<noteq> None") (auto simp add: observer_def Let_def)

lemma pastePattern_differs: "pastePattern s text t \<Longrightarrow> text \<noteq> lastText s"
  by (auto simp add: pastePattern_def)

lemma analyzeCurrentEdits_fields [simp]:
  "currentDraft (analyzeCurrentEdits text t w) = currentDraft w"
  "surfaces (analyzeCurrentEdits text t w) = surfaces w"
  "drafts (analyzeCurrentEdits text t w) = drafts w"
  "analysisTexts (calls (analyzeCurrentEdits text t w)) = analysisTexts (calls w) @ [text]"
  "detections tb (calls (analyzeCurrentEdits text t w)) = detections tb (calls w)"
  by (simp_all add: analyzeCurrentEdits_def Let_def split: option.splits)

lemma stored_analyzeCurrentEdits [simp]: "stored (analyzeCurrentEdits text t w) = stored w"
  by (simp add: stored_def)

lemma pastePattern_undetected:
  "\<not> fridayDraftDetected s \<Longrightarrow>
   pastePattern s text t \<longleftrightarrow>
     30 \<le> wordCount text \<and> 100 < int (length text) - int (length (lastText s))
     \<and> t - lastChangeTime s < 2000"
  by (simp add: pastePattern_def MIN_WORD_COUNT_def BULK_INSERT_THRESHOLD_def)

text \<open>
  C1, as the code has it: for an observer that has not detected a draft, a change event
  calls the detection handler (and sets the flag) if and only if the text has at least 30
  words, more than 100 characters were added since the last observed text, and less than
  2000 ms passed since the last change.
\<close>

theorem detection_fires_iff:
  assumes "surfaces w ob = Some s" and "\<not> fridayDraftDetected s"
  shows "calls (observer ob text e w) =
           calls w @ (if 30 \<le> wordCount text
                        \<and> 100 < int (length text) - int (length (lastText s))
                        \<and> now e - lastChangeTime s < 2000
                      then [HandleFridayDraftDetected (textBox s) text, StoreDraft (freshId e)]
                      else [])
       \<and> (\<exists>s'. surfaces (observer ob text e w) ob = Some s'
              \<and> (fridayDraftDetected s' \<longleftrightarrow>
                    30 \<le> wordCount text
                  \<and> 100 < int (length text) - int (length (lastText s))
                  \<and> now e - lastChangeTime s < 2000))"
proof (cases "pastePattern s text (now e)")
  case True
  from observer_detect[OF assms(1) pastePattern_differs[OF True] True]
    True pastePattern_undetected[OF assms(2), of "text" "now e"]
  show ?thesis by simp
next
  case False
  note np = False
  show ?thesis
  proof (cases "text = lastText s")
    case True
    with observer_same[OF assms(1) True, of e] np pastePattern_undetected[OF assms(2), of "text" "now e"] assms
    show ?thesis by simp
  next
    case False
    from observer_track[OF assms(1) False np] np
      pastePattern_undetected[OF assms(2), of "text" "now e"] assms(2)
    show ?thesis by simp
  qed
qed

lemma observer_detected_frame:
  assumes "surfaces w ob = Some s" "fridayDraftDetected s"
  shows "calls (observer ob text e w) = calls w \<and> drafts (observer ob text e w) = drafts w
       \<and> currentDraft (observer ob text e w) = currentDraft w"
proof (cases "text = lastText s")
  case True
  with observer_same[OF assms(1) True] show ?thesis by simp
next
  case False
  from assms(2) have "\<not> pastePattern s text (now e)" by (simp add: pastePattern_def)
  from observer_track[OF assms(1) False this] show ?thesis by simp
qed

lemma updateDraftWithAnalysis_cases:
  "(updateDraftWithAnalysis draftId a w = w\<lparr>calls := calls w @ [UpdateDraftWithAnalysis draftId]\<rparr>)
   \<or> (\<exists>i<length (stored w). updateDraftWithAnalysis draftId a w =
           w\<lparr>calls := calls w @ [UpdateDraftWithAnalysis draftId],
             drafts := Some ((stored w)[i := merged (stored w ! i) a])\<rparr>)"
proof (cases "findIndex (\<lambda>d. get_prop d (js ''id'') = JStr draftId) (stored w)")
  case None
  then show ?thesis by (simp add: updateDraftWithAnalysis_absent)
next
  case (Some i)
  from findIndex_Some[OF Some] updateDraftWithAnalysis_present[OF Some] show ?thesis by blast
qed

lemma updateDraftWithAnalysis_fields [simp]:
  "currentDraft (updateDraftWithAnalysis draftId a w) = currentDraft w"
  "surfaces (updateDraftWithAnalysis draftId a w) = surfaces w"
  "inFlight (updateDraftWithAnalysis draftId a w) = inFlight w"
  "calls (updateDraftWithAnalysis draftId a w) = calls w @ [UpdateDraftWithAnalysis draftId]"
  "length (stored (updateDraftWithAnalysis draftId a w)) = length (stored w)"
  using updateDraftWithAnalysis_cases[of draftId a w] by auto

lemma settled_fields [simp]:
  "currentDraft (settled i k net sentAt w) = currentDraft w"
  "surfaces (settled i k net sentAt w) = surfaces w"
  "length (stored (settled i k net sentAt w)) = length (stored w)"
  "detections tb (calls (settled i k net sentAt w)) = detections tb (calls w)"
  "analysisTexts (calls (settled i k net sentAt w)) = analysisTexts (calls w)"
  by (simp_all add: settled_def Let_def split: prod.splits option.splits)

lemma timeout_fields [simp]:
  "currentDraft (timeout ob t w) = currentDraft w"
  "drafts (timeout ob t w) = drafts w"
  "detections tb (calls (timeout ob t w)) = detections tb (calls w)"
  by (simp_all add: timeout_def split: option.splits prod.splits)

lemma stored_timeout [simp]: "stored (timeout ob t w) = stored w"
  by (simp add: stored_def)

lemma timeout_surfaces:
  "surfaces (timeout ob t w) ob' =
     (if ob' = ob then map_option (\<lambda>s. s\<lparr>analysisTimer := None\<rparr>) (surfaces w ob)
      else surfaces w ob')"
  by (auto simp add: timeout_def split: option.splits prod.splits)

subsection \<open>Edits below the minimum\<close>

text \<open>
  C6: when the timeout fires and the edit percentage between the baseline and the captured
  text is below 10, no classification is started, no network call is made and the stored
  list is not touched; the only call recorded is \<open>analyzeCurrentEdits\<close> itself.
\<close>

theorem below_minimum_is_silent:
  assumes "surfaces w ob = Some s" and "analysisTimer s = Some (due, text)"
    and "currentDraft w = Some d"
    and "calculateEditPercentage (draft_originalText d) text = Some p"
    and "js_less p (Num 10)"
  shows "drafts (timeout ob t w) = drafts w
       \<and> inFlight (timeout ob t w) = inFlight w
       \<and> calls (timeout ob t w) = calls w @ [AnalyzeCurrentEdits text]"
proof -
  from assms(5) have "\<not> js_ge p (Num MIN_EDIT_PERCENTAGE)"
    by (simp add: js_ge_def MIN_EDIT_PERCENTAGE_def)
  with assms(1-4) show ?thesis
    by (simp add: timeout_def analyzeCurrentEdits_def Let_def)
qed

subsection \<open>Status values\<close>

lemma statuses_ok_storeDraft: "statuses_ok w \<Longrightarrow> statuses_ok (storeDraft d w)"
  using storeDraft_stored[of d w] by (auto simp add: statuses_ok_def)

lemma statuses_ok_handle:
  "statuses_ok w \<Longrightarrow> statuses_ok (handleFridayDraftDetected tb text e w)"
  using handle_stored[of tb "text" e w] by (auto simp add: statuses_ok_def)

lemma statuses_ok_cong: "stored w' = stored w \<Longrightarrow> statuses_ok w \<Longrightarrow> statuses_ok w'"
  by (simp add: statuses_ok_def)

lemma statuses_ok_observer: "statuses_ok w \<Longrightarrow> statuses_ok (observer ob text e w)"
proof (cases "surfaces w ob")
  case None
  assume "statuses_ok w"
  with None show ?thesis by (simp add: observer_unattached)
next
  case (Some s)
  assume ok: "statuses_ok w"
  show ?thesis
  proof (cases "text = lastText s")
    case True
    with ok observer_same[OF Some True] show ?thesis by simp
  next
    case False
    show ?thesis
    proof (cases "pastePattern s text (now e)")
      case True
      have "stored (observer ob text e w) = stored (handleFridayDraftDetected (textBox s) text e w)"
        unfolding observer_detect[OF Some False True] by simp
      with statuses_ok_handle[OF ok, of "textBox s" "text" e] show ?thesis
        by (simp add: statuses_ok_def)
    next
      case False
      have "stored (observer ob text e w) = stored w"
        unfolding observer_track[OF Some \<open>text \<noteq> lastText s\<close> False] by simp
      with ok show ?thesis by (simp add: statuses_ok_def)
    qed
  qed
qed

lemma statuses_ok_update:
  assumes "statuses_ok w" and "get_prop a (js ''status'') = JStr (js ''editing'')"
  shows "statuses_ok (updateDraftWithAnalysis draftId a w)"
proof -
  have ed: "truthy (JStr (js ''editing''))" by (simp add: js_def)
  from updateDraftWithAnalysis_cases[of draftId a w] show ?thesis
  proof
    assume "updateDraftWithAnalysis draftId a w = w\<lparr>calls := calls w @ [UpdateDraftWithAnalysis draftId]\<rparr>"
    with assms(1) show ?thesis by (simp add: statuses_ok_def)
  next
    assume "\<exists>i<length (stored w). updateDraftWithAnalysis draftId a w =
           w\<lparr>calls := calls w @ [UpdateDraftWithAnalysis draftId],
             drafts := Some ((stored w)[i := merged (stored w ! i) a])\<rparr>"
    then obtain i where i: "i < length (stored w)"
      and eq: "stored (updateDraftWithAnalysis draftId a w) = (stored w)[i := merged (stored w ! i) a]"
      by auto
    have "get_prop (merged (stored w ! i) a) (js ''status'') = JStr (js ''editing'')"
      using assms(2) ed by (simp add: get_prop_def merged_status)
    with assms(1) i show ?thesis
      unfolding statuses_ok_def eq by (auto dest!: set_update_subset_insert[THEN subsetD])
  qed
qed

lemma statuses_ok_settled: "statuses_ok w \<Longrightarrow> statuses_ok (settled i k net sentAt w)"
  by (auto simp add: settled_def Let_def get_prop_def split: prod.splits option.splits
      intro!: statuses_ok_update intro: statuses_ok_cong[rotated])

lemma stored_monitorComposeWindow [simp]: "stored (monitorComposeWindow tb t w) = stored w"
  by (simp add: monitorComposeWindow_def)

lemma stored_watchTextBox [simp]: "stored (watchTextBox tb w) = stored w"
  by (simp add: watchTextBox_def)

lemma stored_fold_watchTextBox [simp]: "stored (fold watchTextBox tbs w) = stored w"
  by (induction tbs arbitrary: w) simp_all

lemma statuses_ok_observers:
  "statuses_ok w \<Longrightarrow> statuses_ok (fold (\<lambda>ob. observer ob text (envOf ob)) obs w)"
  by (induction obs arbitrary: w) (simp_all add: statuses_ok_observer)

lemma statuses_ok_step: "statuses_ok w \<Longrightarrow> statuses_ok (step ev w)"
proof (cases ev)
  case (ExistingWindow dialog found t)
  assume "statuses_ok w"
  then show ?thesis unfolding ExistingWindow
    by (simp add: statuses_ok_def Let_def split: option.splits)
next
  case (AddedNode tbs)
  assume "statuses_ok w"
  then show ?thesis unfolding AddedNode by (simp add: statuses_ok_def)
next
  case (MonitorTimer t)
  assume "statuses_ok w"
  then show ?thesis unfolding MonitorTimer by (simp add: statuses_ok_def split: list.splits)
next
  case (Mutation tb cur envOf)
  assume "statuses_ok w"
  then show ?thesis unfolding Mutation by (simp add: statuses_ok_observers)
next
  case (Timeout ob t)
  assume "statuses_ok w"
  then show ?thesis unfolding Timeout by (simp add: statuses_ok_def)
next
  case (Settled i k net sentAt)
  assume "statuses_ok w"
  then show ?thesis unfolding Settled by (simp add: statuses_ok_settled)
qed

text \<open>
  C9: if every stored record has status \<open>pending\<close> or \<open>editing\<close>, then so has every stored
  record after any run of the tracker; in particular no record ever has status \<open>sent\<close>.
\<close>

theorem status_pending_or_editing:
  assumes "\<forall>r\<in>set (stored w). get_prop r (js ''status'') = JStr (js ''pending'')
                        \<or> get_prop r (js ''status'') = JStr (js ''editing'')"
  shows "\<forall>r\<in>set (stored (run evs w)).
           (get_prop r (js ''status'') = JStr (js ''pending'')
            \<or> get_prop r (js ''status'') = JStr (js ''editing''))
           \<and> get_prop r (js ''status'') \<noteq> JStr (js ''sent'')"
proof -
  from assms have "statuses_ok w" by (simp add: statuses_ok_def)
  then have "statuses_ok (run evs w)"
    unfolding run_def by (induction evs arbitrary: w) (simp_all add: statuses_ok_step)
  moreover have "js ''pending'' \<noteq> js ''sent''" "js ''editing'' \<noteq> js ''sent''"
    by (simp_all add: js_def)
  ultimately show ?thesis by (auto simp add: statuses_ok_def)
qed

text \<open>
  The two writes: \<open>storeDraft\<close> appends a record with status \<open>pending\<close>, and when a
  classification settles and the record of the current draft is found, that record has
  status \<open>editing\<close> afterwards, whatever the classifier returned.
\<close>

lemma storeDraft_writes_pending:
  "get_prop (last (stored (storeDraft d w))) (js ''status'') = JStr (js ''pending'')"
  using storeDraft_stored[of d w] by auto

lemma settled_writes_editing:
  assumes "i < length (inFlight w)" and "currentDraft w = Some d"
    and "findIndex (\<lambda>r. get_prop r (js ''id'') = JStr (draft_id d)) (stored w) = Some j"
  shows "get_prop (stored (settled i k net sentAt w) ! j) (js ''status'') = JStr (js ''editing'')"
proof -
  have ed: "truthy (JStr (js ''editing''))" by (simp add: js_def)
  from findIndex_Some[OF assms(3)] have j: "j < length (stored w)" by simp
  obtain analysis fetches where ae: "analyzeEdits k net (cl_originalText (inFlight w ! i))
      (cl_currentText (inFlight w ! i)) (cl_editPercentage (inFlight w ! i))
      (cl_timeSinceGeneration (inFlight w ! i)) = (analysis, fetches)"
    by (cases "analyzeEdits k net (cl_originalText (inFlight w ! i))
      (cl_currentText (inFlight w ! i)) (cl_editPercentage (inFlight w ! i))
      (cl_timeSinceGeneration (inFlight w ! i))")
  let ?w1 = "w\<lparr>inFlight := take i (inFlight w) @ drop (Suc i) (inFlight w),
                 calls := calls w @ replicate fetches Fetch\<rparr>"
  have f: "findIndex (\<lambda>r. get_prop r (js ''id'') = JStr (draft_id d)) (stored ?w1) = Some j"
    using assms(3) by simp
  from assms(1,2) ae j ed show ?thesis
    by (simp add: settled_def Let_def updateDraftWithAnalysis_present[OF f] get_prop_def
        merged_status)
qed

lemma pastedDraft_size: "wordCount pastedDraft = 40" "length pastedDraft = 250"
  by code_simp+

lemma attached_surface:
  "surfaces (monitorComposeWindow tb t w) (observerCount w) =
     Some \<lparr>textBox = tb, lastText = [], lastChangeTime = t, fridayDraftDetected = False,
           analysisTimer = None\<rparr>"
  by (simp add: monitorComposeWindow_def)

lemma attached_first:
  "surfaces (monitorComposeWindow tb t initial) 0 =
     Some \<lparr>textBox = tb, lastText = [], lastChangeTime = t, fridayDraftDetected = False,
           analysisTimer = None\<rparr>"
  by (simp add: monitorComposeWindow_def initial_def)

theorem detection_fires_iff_witness:
  "calls (observer 0 pastedDraft (at_time 500) (monitorComposeWindow 0 0 initial)) =
     [HandleFridayDraftDetected 0 pastedDraft, StoreDraft (js ''draft_1'')]
   \<and> calls (observer 0 pastedDraft (at_time 3000) (monitorComposeWindow 0 0 initial)) = []"
proof -
  let ?s = "\<lparr>textBox = 0, lastText = [], lastChangeTime = 0, fridayDraftDetected = False, analysisTimer = None\<rparr>"
  have s: "surfaces (monitorComposeWindow 0 0 initial) 0 = Some ?s" by (rule attached_first)
  have c: "calls (monitorComposeWindow 0 0 initial) = []"
    by (simp add: monitorComposeWindow_def initial_def)
  from detection_fires_iff[OF s, of pastedDraft "at_time 500"]
    detection_fires_iff[OF s, of pastedDraft "at_time 3000"]
  show ?thesis by (simp add: pastedDraft_size c at_time_def)
qed

text \<open>
  C1 as stated fails: 40 words and 250 added characters arriving exactly 2000 ms after the
  last change are within the stated window, and no detection fires.
\<close>

theorem detection_at_window_counterexample:
  "30 \<le> wordCount pastedDraft
   \<and> 100 \<le> int (length pastedDraft) - int (length ([] :: jsstring))
   \<and> now (at_time 2000) - 0 \<le> 2000
   \<and> calls (observer 0 pastedDraft (at_time 2000) (monitorComposeWindow 0 0 initial)) = []
   \<and> surfaces (observer 0 pastedDraft (at_time 2000) (monitorComposeWindow 0 0 initial)) 0 =
       Some \<lparr>textBox = 0, lastText = pastedDraft, lastChangeTime = 2000, fridayDraftDetected = False,
             analysisTimer = None\<rparr>"
proof -
  let ?s = "\<lparr>textBox = 0, lastText = [], lastChangeTime = 0, fridayDraftDetected = False, analysisTimer = None\<rparr>"
  have s: "surfaces (monitorComposeWindow 0 0 initial) 0 = Some ?s" by (rule attached_first)
  have ne: "pastedDraft \<noteq> lastText ?s" using pastedDraft_size(2) by auto
  have np: "\<not> pastePattern ?s pastedDraft (now (at_time 2000))"
    by (simp add: pastePattern_def at_time_def BULK_INSERT_THRESHOLD_def)
  show ?thesis
    unfolding observer_track[OF s ne np]
    by (simp add: pastedDraft_size at_time_def monitorComposeWindow_def initial_def)
qed

lemma afterPaste_state:
  "surfaces afterPaste 0 =
     Some \<lparr>textBox = 0, lastText = pastedDraft, lastChangeTime = 500, fridayDraftDetected = True,
           analysisTimer = Some (3500, pastedDraft)\<rparr>"
  "currentDraft afterPaste =
     Some \<lparr>draft_id = js ''draft_1'', draft_textBox = 0, draft_originalText = pastedDraft,
           draft_originalWordCount = 40, draft_generatedAt = js ''2024-01-01T00:00:00.000Z'',
           draft_timestamp = 500\<rparr>"
  "calls afterPaste = [HandleFridayDraftDetected 0 pastedDraft, StoreDraft (js ''draft_1'')]"
  "inFlight afterPaste = []"
proof -
  let ?s = "\<lparr>textBox = 0, lastText = [], lastChangeTime = 0, fridayDraftDetected = False, analysisTimer = None\<rparr>"
  have s: "surfaces (monitorComposeWindow 0 0 initial) 0 = Some ?s" by (rule attached_first)
  have ne: "pastedDraft \<noteq> lastText ?s" using pastedDraft_size(2) by auto
  have p: "pastePattern ?s pastedDraft (now (at_time 500))"
    by (simp add: pastePattern_def at_time_def BULK_INSERT_THRESHOLD_def MIN_WORD_COUNT_def
        pastedDraft_size)
  note eq = observer_detect[OF s ne p]
  show "surfaces afterPaste 0 =
     Some \<lparr>textBox = 0, lastText = pastedDraft, lastChangeTime = 500, fridayDraftDetected = True,
           analysisTimer = Some (3500, pastedDraft)\<rparr>"
    unfolding afterPaste_def eq by (simp add: at_time_def ANALYSIS_DELAY_def)
  show "currentDraft afterPaste =
     Some \<lparr>draft_id = js ''draft_1'', draft_textBox = 0, draft_originalText = pastedDraft,
           draft_originalWordCount = 40, draft_generatedAt = js ''2024-01-01T00:00:00.000Z'',
           draft_timestamp = 500\<rparr>"
    unfolding afterPaste_def eq
    by (simp add: at_time_def handleFridayDraftDetected_def Let_def pastedDraft_size)
  show "calls afterPaste = [HandleFridayDraftDetected 0 pastedDraft, StoreDraft (js ''draft_1'')]"
    unfolding afterPaste_def eq
    by (simp add: at_time_def monitorComposeWindow_def initial_def)
  show "inFlight afterPaste = []"
    unfolding afterPaste_def eq by (simp add: monitorComposeWindow_def initial_def)
qed

lemma calculateEditPercentage_same:
  "a \<noteq> [] \<Longrightarrow> calculateEditPercentage a a = Some (Num 0)"
  by (simp add: calculateEditPercentage_def levenshteinDistance_lev_rec Let_def)

theorem below_minimum_is_silent_witness:
  "drafts (timeout 0 3500 afterPaste) = drafts afterPaste
   \<and> inFlight (timeout 0 3500 afterPaste) = []
   \<and> calls (timeout 0 3500 afterPaste) =
       [HandleFridayDraftDetected 0 pastedDraft, StoreDraft (js ''draft_1''),
        AnalyzeCurrentEdits pastedDraft]"
proof -
  have ne: "pastedDraft \<noteq> []" using pastedDraft_size(2) by auto
  have p: "calculateEditPercentage
             (draft_originalText \<lparr>draft_id = js ''draft_1'', draft_textBox = 0,
                draft_originalText = pastedDraft, draft_originalWordCount = 40,
                draft_generatedAt = js ''2024-01-01T00:00:00.000Z'', draft_timestamp = 500\<rparr>)
             pastedDraft = Some (Num 0)"
    using calculateEditPercentage_same[OF ne] by simp
  have l: "js_less (Num 0) (Num 10)" by simp
  from below_minimum_is_silent[OF afterPaste_state(1) _ afterPaste_state(2) p l, of 3500 3500]
  show ?thesis by (simp add: afterPaste_state)
qed

theorem status_pending_or_editing_witness:
  "stored (run [ExistingWindow 5 (Some 0) 0, Mutation 0 pastedDraft (\<lambda>ob. at_time 500)] initial)
     \<noteq> []
   \<and> get_prop
        (hd (stored (run [ExistingWindow 5 (Some 0) 0, Mutation 0 pastedDraft (\<lambda>ob. at_time 500)]
               initial)))
        (js ''status'') \<noteq> JStr (js ''sent'')"
proof -
  let ?evs = "[ExistingWindow 5 (Some 0) 0, Mutation 0 pastedDraft (\<lambda>ob. at_time 500)]"
  let ?w1 = "monitorComposeWindow 0 0 (initial\<lparr>watchedComposeWindows := {5}\<rparr>)"
  let ?s = "\<lparr>textBox = 0, lastText = [], lastChangeTime = 0, fridayDraftDetected = False,
             analysisTimer = None\<rparr>"
  have "\<forall>r\<in>set (stored initial). get_prop r (js ''status'') = JStr (js ''pending'')
                        \<or> get_prop r (js ''status'') = JStr (js ''editing'')"
    by (simp add: stored_def initial_def)
  note a = status_pending_or_editing[OF this, of ?evs]
  have s: "surfaces ?w1 0 = Some ?s" by (simp add: monitorComposeWindow_def initial_def)
  have obs: "observersOf ?w1 0 = [0]"
    by (simp add: observersOf_def monitorComposeWindow_def initial_def)
  have w1: "step (ExistingWindow 5 (Some 0) 0) initial = ?w1"
    by (simp add: initial_def)
  have "run ?evs initial = step (Mutation 0 pastedDraft (\<lambda>ob. at_time 500)) ?w1"
    unfolding w1[symmetric] by (simp only: run_def fold_simps o_apply id_apply)
  also have "\<dots> = observer 0 pastedDraft (at_time 500) ?w1"
    by (simp only: step.simps obs fold_simps o_apply id_apply)
  finally have r: "run ?evs initial = observer 0 pastedDraft (at_time 500) ?w1" .
  have ne: "pastedDraft \<noteq> lastText ?s" using pastedDraft_size(2) by auto
  have p: "pastePattern ?s pastedDraft (now (at_time 500))"
    by (simp add: pastePattern_def at_time_def BULK_INSERT_THRESHOLD_def MIN_WORD_COUNT_def
        pastedDraft_size)
  obtain rec where "stored (handleFridayDraftDetected (textBox ?s) pastedDraft (at_time 500) ?w1)
      = stored ?w1 @ [rec]"
    using handle_stored by blast
  then have ne: "stored (run ?evs initial) \<noteq> []"
    unfolding r observer_detect[OF s ne p] by simp
  then have "hd (stored (run ?evs initial)) \<in> set (stored (run ?evs initial))" by simp
  with a ne show ?thesis by blast
qed

lemma pasteEnv_simps [simp]:
  "now (pasteEnv ob) = 1500" "freshId (pasteEnv 0) = js ''draft_1''"
  "freshId (pasteEnv (Suc 0)) = js ''draft_2''"
  by (simp_all add: pasteEnv_def at_time_def)

text \<open>
  C7 at a failing input: the dialog is open at start-up, so its text box 0 is observed while
  only the dialog enters the set; when a node containing the text box is added later, the
  text box is monitored a second time.  One paste of the draft then runs both callbacks:
  the detection handler and \<open>storeDraft\<close> are called twice for text box 0 and two records
  are stored.
\<close>

theorem two_observers_two_records:
  "calls (run doubleObserverRun initial) =
     [HandleFridayDraftDetected 0 pastedDraft, StoreDraft (js ''draft_1''),
      HandleFridayDraftDetected 0 pastedDraft, StoreDraft (js ''draft_2'')]
   \<and> detections 0 (calls (run doubleObserverRun initial)) = 2
   \<and> length (stored (run doubleObserverRun initial)) = 2"
proof -
  let ?s0 = "\<lparr>textBox = 0, lastText = [], lastChangeTime = 0, fridayDraftDetected = False,
             analysisTimer = None\<rparr>"
  let ?s1 = "\<lparr>textBox = 0, lastText = [], lastChangeTime = 500, fridayDraftDetected = False,
             analysisTimer = None\<rparr>"
  let ?w1 = "monitorComposeWindow 0 0 (initial\<lparr>watchedComposeWindows := {5}\<rparr>)"
  let ?w2 = "?w1\<lparr>watchedComposeWindows := {0, 5}, scheduled := [0]\<rparr>"
  let ?w3 = "monitorComposeWindow 0 500 (?w2\<lparr>scheduled := []\<rparr>)"
  have w1: "step (ExistingWindow 5 (Some 0) 0) initial = ?w1"
    by (simp add: initial_def)
  have w2: "step (AddedNode [0]) ?w1 = ?w2"
    by (simp add: watchTextBox_def monitorComposeWindow_def initial_def)
  have w3: "step (MonitorTimer 500) ?w2 = ?w3"
    by (simp add: monitorComposeWindow_def initial_def)
  have s0: "surfaces ?w3 0 = Some ?s0" and s1: "surfaces ?w3 (Suc 0) = Some ?s1"
    and c3: "calls ?w3 = []" and st3: "stored ?w3 = []"
    by (simp_all add: monitorComposeWindow_def initial_def stored_def)
  have obs: "observersOf ?w3 0 = [0, Suc 0]"
    by (simp add: observersOf_def monitorComposeWindow_def initial_def upt_rec[of 0])
  have ne0: "pastedDraft \<noteq> lastText ?s0" and ne1: "pastedDraft \<noteq> lastText ?s1"
    using pastedDraft_size(2) by auto
  have p0: "pastePattern ?s0 pastedDraft (now (pasteEnv 0))"
    and p1: "pastePattern ?s1 pastedDraft (now (pasteEnv (Suc 0)))"
    by (simp_all add: pastePattern_def BULK_INSERT_THRESHOLD_def MIN_WORD_COUNT_def
        pastedDraft_size)
  let ?w4 = "observer 0 pastedDraft (pasteEnv 0) ?w3"
  note e4 = observer_detect[OF s0 ne0 p0]
  have s1': "surfaces ?w4 (Suc 0) = Some ?s1" unfolding e4 using s1 by simp
  have c4: "calls ?w4 = [HandleFridayDraftDetected 0 pastedDraft, StoreDraft (js ''draft_1'')]"
    unfolding e4 using c3 by simp
  obtain r0 where r0: "stored ?w4 = [r0]"
    using handle_stored[of 0 pastedDraft "pasteEnv 0" ?w3] st3 unfolding e4 by auto
  let ?w5 = "observer (Suc 0) pastedDraft (pasteEnv (Suc 0)) ?w4"
  note e5 = observer_detect[OF s1' ne1 p1]
  have c5: "calls ?w5 =
     [HandleFridayDraftDetected 0 pastedDraft, StoreDraft (js ''draft_1''),
      HandleFridayDraftDetected 0 pastedDraft, StoreDraft (js ''draft_2'')]"
    unfolding e5 using c4 by simp
  obtain r1 where r1: "stored ?w5 = [r0, r1]"
    using handle_stored[of 0 pastedDraft "pasteEnv (Suc 0)" ?w4] r0 unfolding e5 by auto
  have "run doubleObserverRun initial =
      step (Mutation 0 pastedDraft pasteEnv) (step (MonitorTimer 500) (step (AddedNode [0])
        (step (ExistingWindow 5 (Some 0) 0) initial)))"
    by (simp only: run_def doubleObserverRun_def fold_simps o_apply id_apply)
  also have "\<dots> = step (Mutation 0 pastedDraft pasteEnv) ?w3"
    by (simp only: w1 w2 w3)
  also have "\<dots> = ?w5"
    by (simp only: step.simps obs fold_simps o_apply id_apply)
  finally have run: "run doubleObserverRun initial = ?w5" .
  show ?thesis unfolding run using c5 r1 by simp
qed

lemma fireDue_not_due:
  assumes "surfaces w ob = Some s" "\<forall>due x. analysisTimer s = Some (due, x) \<longrightarrow> t < due"
  shows "fireDue ob t w = w"
  using assms by (auto simp add: fireDue_def split: option.splits)

lemma tracked_change:
  assumes "surfaces w ob = Some s" "fridayDraftDetected s" "currentDraft w \<noteq> None"
    and "text \<noteq> lastText s"
  shows "observer ob text e w =
     w\<lparr>surfaces := (surfaces w)(ob \<mapsto>
        s\<lparr>analysisTimer := Some (now e + ANALYSIS_DELAY, text), lastText := text,
          lastChangeTime := now e\<rparr>)\<rparr>"
proof -
  from assms(2) have "\<not> pastePattern s text (now e)" by (simp add: pastePattern_def)
  from observer_track[OF assms(1,4) this] assms(2,3) show ?thesis by simp
qed

lemma play_burst:
  assumes "surfaces w ob = Some s" "fridayDraftDetected s" "currentDraft w \<noteq> None"
    and "analysisTimer s = Some (due, prev)" "lastText s = prev"
    and "burst prev due es" "es \<noteq> []"
  shows "\<exists>s'. surfaces (play ob es w) ob = Some s'
            \<and> analysisTimer s' = Some (now (snd (last es)) + ANALYSIS_DELAY, fst (last es))
            \<and> calls (play ob es w) = calls w
            \<and> currentDraft (play ob es w) = currentDraft w"
  using assms
proof (induction es arbitrary: w s due prev)
  case Nil
  then show ?case by simp
next
  case (Cons ev es)
  obtain cur e where ev: "ev = (cur, e)" by (cases ev)
  from Cons.prems(6) ev have b: "cur \<noteq> prev" "now e < due" "burst cur (now e + ANALYSIS_DELAY) es"
    by simp_all
  have nd: "fireDue ob (now e) w = w"
    using Cons.prems(1,4) b(2) by (intro fireDue_not_due) auto
  let ?s1 = "s\<lparr>analysisTimer := Some (now e + ANALYSIS_DELAY, cur), lastText := cur,
          lastChangeTime := now e\<rparr>"
  let ?w1 = "w\<lparr>surfaces := (surfaces w)(ob \<mapsto> ?s1)\<rparr>"
  have w1: "observer ob cur e w = ?w1"
    using Cons.prems(1,2,3,5) b(1) by (intro tracked_change) auto
  have p: "play ob (ev # es) w = play ob es ?w1" by (simp add: ev nd w1)
  show ?case
  proof (cases "es = []")
    case True
    then show ?thesis unfolding p by (simp add: ev)
  next
    case False
    have "\<exists>s'. surfaces (play ob es ?w1) ob = Some s'
            \<and> analysisTimer s' = Some (now (snd (last es)) + ANALYSIS_DELAY, fst (last es))
            \<and> calls (play ob es ?w1) = calls ?w1
            \<and> currentDraft (play ob es ?w1) = currentDraft ?w1"
      using Cons.prems(2,3) b(3) False
      by (intro Cons.IH[where s = ?s1 and due = "now e + ANALYSIS_DELAY" and prev = cur]) simp_all
    with False show ?thesis unfolding p by auto
  qed
qed

lemma fireDue_due:
  assumes "surfaces w ob = Some s" "analysisTimer s = Some (due, text)" "due \<le> t"
  shows "analysisTexts (calls (fireDue ob t w)) = analysisTexts (calls w) @ [text]"
    and "\<exists>s'. surfaces (fireDue ob t w) ob = Some s' \<and> analysisTimer s' = None"
  using assms by (simp_all add: fireDue_def timeout_def)

text \<open>
  C2, as the code has it.  For an observer with a detected draft, a change event with a new
  text replaces the pending timeout by one due 3000 ms later, and an event with the same
  text changes nothing.  Hence a burst of events, each with a text different from the one
  before and each arriving before the pending timeout is due, followed by a silence that
  lasts until the last timeout is due, adds exactly one call of \<open>analyzeCurrentEdits\<close>, with
  the text of the last event.
\<close>

theorem debounce_single_analysis:
  assumes "surfaces w ob = Some s" and "fridayDraftDetected s" and "currentDraft w \<noteq> None"
  shows "(text \<noteq> lastText s \<longrightarrow>
            (\<exists>s'. surfaces (observer ob text e w) ob = Some s'
                 \<and> analysisTimer s' = Some (now e + 3000, text)))
       \<and> (text = lastText s \<longrightarrow> observer ob text e w = w)
       \<and> (text \<noteq> lastText s
            \<and> (\<forall>due x. analysisTimer s = Some (due, x) \<longrightarrow> now e < due)
            \<and> burst text (now e + 3000) rest
            \<and> now (snd (last ((text, e) # rest))) + 3000 \<le> t \<longrightarrow>
          analysisTexts (calls (fireDue ob t (play ob ((text, e) # rest) w))) =
            analysisTexts (calls w) @ [fst (last ((text, e) # rest))])"
proof (intro conjI impI)
  assume "text \<noteq> lastText s"
  from tracked_change[OF assms this, of e]
  show "\<exists>s'. surfaces (observer ob text e w) ob = Some s'
            \<and> analysisTimer s' = Some (now e + 3000, text)"
    by (simp add: ANALYSIS_DELAY_def)
next
  assume "text = lastText s"
  then show "observer ob text e w = w" by (rule observer_same[OF assms(1)])
next
  assume a: "text \<noteq> lastText s
            \<and> (\<forall>due x. analysisTimer s = Some (due, x) \<longrightarrow> now e < due)
            \<and> burst text (now e + 3000) rest
            \<and> now (snd (last ((text, e) # rest))) + 3000 \<le> t"
  let ?s1 = "s\<lparr>analysisTimer := Some (now e + ANALYSIS_DELAY, text), lastText := text,
          lastChangeTime := now e\<rparr>"
  let ?w1 = "w\<lparr>surfaces := (surfaces w)(ob \<mapsto> ?s1)\<rparr>"
  from a have nd: "fireDue ob (now e) w = w" by (intro fireDue_not_due[OF assms(1)]) simp
  from a have w1: "observer ob text e w = ?w1" by (intro tracked_change[OF assms]) simp
  have p: "play ob ((text, e) # rest) w = play ob rest ?w1" by (simp add: nd w1)
  have "\<exists>s'. surfaces (play ob rest ?w1) ob = Some s'
            \<and> analysisTimer s' = Some (now (snd (last ((text, e) # rest))) + ANALYSIS_DELAY,
                                       fst (last ((text, e) # rest)))
            \<and> calls (play ob rest ?w1) = calls w"
  proof (cases "rest = []")
    case True
    then show ?thesis by simp
  next
    case False
    from a have "burst text (now e + ANALYSIS_DELAY) rest" by (simp add: ANALYSIS_DELAY_def)
    with assms(2,3) False
    have "\<exists>s'. surfaces (play ob rest ?w1) ob = Some s'
            \<and> analysisTimer s' = Some (now (snd (last rest)) + ANALYSIS_DELAY, fst (last rest))
            \<and> calls (play ob rest ?w1) = calls ?w1
            \<and> currentDraft (play ob rest ?w1) = currentDraft ?w1"
      by (intro play_burst[where s = ?s1 and due = "now e + ANALYSIS_DELAY" and prev = "text"]) simp_all
    with False show ?thesis by auto
  qed
  then obtain s' where s': "surfaces (play ob rest ?w1) ob = Some s'"
    "analysisTimer s' = Some (now (snd (last ((text, e) # rest))) + ANALYSIS_DELAY,
                             fst (last ((text, e) # rest)))"
    "calls (play ob rest ?w1) = calls w" by blast
  from a have "now (snd (last ((text, e) # rest))) + ANALYSIS_DELAY \<le> t"
    by (simp add: ANALYSIS_DELAY_def)
  from fireDue_due(1)[OF s'(1,2) this] s'(3)
  show "analysisTexts (calls (fireDue ob t (play ob ((text, e) # rest) w))) =
            analysisTexts (calls w) @ [fst (last ((text, e) # rest))]"
    by (simp only: p)
qed

theorem debounce_single_analysis_witness:
  "analysisTexts (calls (fireDue 0 5000
      (play 0 [(pastedDraft @ js ''a'', at_time 1000), (pastedDraft @ js ''ab'', at_time 1500),
               (pastedDraft @ js ''abc'', at_time 2000)] afterPaste))) = [pastedDraft @ js ''abc'']
   \<and> observer 0 pastedDraft (at_time 1000) afterPaste = afterPaste"
proof -
  have cd: "currentDraft afterPaste \<noteq> None" by (simp add: afterPaste_state)
  have b: "burst (pastedDraft @ js ''a'') (now (at_time 1000) + 3000)
             [(pastedDraft @ js ''ab'', at_time 1500), (pastedDraft @ js ''abc'', at_time 2000)]"
    by (simp add: at_time_def ANALYSIS_DELAY_def js_def)
  from debounce_single_analysis[OF afterPaste_state(1) _ cd,
      of "pastedDraft @ js ''a''" "at_time 1000"
         "[(pastedDraft @ js ''ab'', at_time 1500), (pastedDraft @ js ''abc'', at_time 2000)]" 5000]
    debounce_single_analysis[OF afterPaste_state(1) _ cd, of pastedDraft "at_time 1000"] b
  show ?thesis by (simp add: afterPaste_state at_time_def js_def)
qed

text \<open>
  C2 as stated fails when an event of the sequence does not change the text: the paste at
  500 ms, a mutation with the same text at 3400 ms and an edit at 6300 ms are each less than
  3000 ms apart, yet the analysis runs twice, at 3500 ms on the pasted text and at 9300 ms
  on the edited one.
\<close>

theorem debounce_noop_counterexample:
  "3400 - 500 < (3000::int) \<and> 6300 - 3400 < (3000::int) \<and> 6300 + 3000 \<le> (9300::int)
   \<and> analysisTexts (calls (fireDue 0 9300
        (play 0 [(pastedDraft, at_time 500), (pastedDraft, at_time 3400),
                 (pastedDraft @ js ''x'', at_time 6300)] (monitorComposeWindow 0 0 initial))))
      = [pastedDraft, pastedDraft @ js ''x'']"
proof -
  let ?w0 = "monitorComposeWindow 0 0 initial"
  let ?B = "pastedDraft @ js ''x''"
  have f1: "fireDue 0 (now (at_time 500)) ?w0 = ?w0"
    by (rule fireDue_not_due[OF attached_first]) simp
  have f2: "fireDue 0 (now (at_time 3400)) afterPaste = afterPaste"
    by (rule fireDue_not_due[OF afterPaste_state(1)]) (simp add: at_time_def)
  have o2: "observer 0 pastedDraft (at_time 3400) afterPaste = afterPaste"
    by (rule observer_same[OF afterPaste_state(1)]) simp
  let ?w3 = "timeout 0 3500 afterPaste"
  have f3: "fireDue 0 (now (at_time 6300)) afterPaste = ?w3"
    by (simp add: fireDue_def afterPaste_state(1) at_time_def)
  let ?s3 = "\<lparr>textBox = 0, lastText = pastedDraft, lastChangeTime = 500, fridayDraftDetected = True,
           analysisTimer = None\<rparr>"
  have s3: "surfaces ?w3 0 = Some ?s3" by (simp add: timeout_surfaces afterPaste_state(1))
  have c3: "analysisTexts (calls ?w3) = [pastedDraft]"
    by (simp add: timeout_def afterPaste_state)
  have ne: "?B \<noteq> lastText ?s3" by (simp add: js_def)
  have cd: "currentDraft ?w3 \<noteq> None" by (simp add: afterPaste_state)
  have d3: "fridayDraftDetected ?s3" by simp
  note o3 = tracked_change[OF s3 d3 cd ne, of "at_time 6300"]
  let ?w4 = "observer 0 ?B (at_time 6300) ?w3"
  have s4: "surfaces ?w4 0 = Some (?s3\<lparr>analysisTimer := Some (9300, ?B), lastText := ?B,
      lastChangeTime := 6300\<rparr>)"
    unfolding o3 by (simp add: at_time_def ANALYSIS_DELAY_def)
  have c4: "calls ?w4 = calls ?w3" unfolding o3 by simp
  have t4: "analysisTimer (?s3\<lparr>analysisTimer := Some (9300, ?B), lastText := ?B,
      lastChangeTime := 6300\<rparr>) = Some (9300, ?B)" by simp
  have "analysisTexts (calls (fireDue 0 9300 ?w4)) = analysisTexts (calls ?w4) @ [?B]"
    by (rule fireDue_due(1)[OF s4 t4]) simp
  with c3 c4 have "analysisTexts (calls (fireDue 0 9300 ?w4)) = [pastedDraft, ?B]" by simp
  moreover have "play 0 [(pastedDraft, at_time 500), (pastedDraft, at_time 3400),
                 (?B, at_time 6300)] ?w0 = ?w4"
    by (simp add: f1 afterPaste_def[symmetric] f2 o2 f3)
  ultimately show ?thesis by simp
qed

theorem updateDraftWithAnalysis_frame_witness:
  "drafts (updateDraftWithAnalysis (js ''draft_2'') [js ''summary'' \<mapsto> JStr (js ''ok'')] afterPaste)
     = drafts afterPaste
   \<and> length (stored (updateDraftWithAnalysis (js ''draft_1'') [js ''summary'' \<mapsto> JStr (js ''ok'')]
        afterPaste)) = 1
   \<and> (stored (updateDraftWithAnalysis (js ''draft_1'') [js ''summary'' \<mapsto> JStr (js ''ok'')]
        afterPaste) ! 0) (js ''summary'') = Some (JStr (js ''ok''))
   \<and> (stored (updateDraftWithAnalysis (js ''draft_1'') [js ''summary'' \<mapsto> JStr (js ''ok'')]
        afterPaste) ! 0) (js ''originalText'') = Some (JStr pastedDraft)"
proof -
  let ?a = "[js ''summary'' \<mapsto> JStr (js ''ok'')]"
  have st: "stored afterPaste =
      [[js ''id'' \<mapsto> JStr (js ''draft_1''),
        js ''originalText'' \<mapsto> JStr pastedDraft,
        js ''originalWordCount'' \<mapsto> JNumber (Num 40),
        js ''generatedAt'' \<mapsto> JStr (js ''2024-01-01T00:00:00.000Z''),
        js ''timestamp'' \<mapsto> JNumber (Num 500),
        js ''status'' \<mapsto> JStr (js ''pending'')]]"
  proof -
    let ?s = "\<lparr>textBox = 0, lastText = [], lastChangeTime = 0, fridayDraftDetected = False, analysisTimer = None\<rparr>"
    have s: "surfaces (monitorComposeWindow 0 0 initial) 0 = Some ?s" by (rule attached_first)
    have ne: "pastedDraft \<noteq> lastText ?s" using pastedDraft_size(2) by auto
    have p: "pastePattern ?s pastedDraft (now (at_time 500))"
      by (simp add: pastePattern_def at_time_def BULK_INSERT_THRESHOLD_def MIN_WORD_COUNT_def
          pastedDraft_size)
    show ?thesis
      unfolding afterPaste_def observer_detect[OF s ne p]
      by (simp add: handleFridayDraftDetected_def storeDraft_def Let_def at_time_def
          monitorComposeWindow_def initial_def stored_def pastedDraft_size)
  qed
  have k1: "js ''summary'' \<in> analysisKeys" "js ''summary'' \<noteq> js ''status''"
    and k2: "js ''originalText'' \<notin> analysisKeys"
    by (simp_all add: analysisKeys_def js_def)
  have absent: "\<forall>d\<in>set (stored afterPaste). get_prop d (js ''id'') \<noteq> JStr (js ''draft_2'')"
    by (simp add: st get_prop_def js_def)
  have present: "\<exists>d\<in>set (stored afterPaste). get_prop d (js ''id'') = JStr (js ''draft_1'')"
    by (simp add: st get_prop_def js_def)
  from updateDraftWithAnalysis_frame[of afterPaste "js ''draft_2''" ?a] absent
  have a: "drafts (updateDraftWithAnalysis (js ''draft_2'') ?a afterPaste) = drafts afterPaste"
    by blast
  from updateDraftWithAnalysis_frame[of afterPaste "js ''draft_1''" ?a] present
  obtain i where i: "i < length (stored afterPaste)"
    "length (stored (updateDraftWithAnalysis (js ''draft_1'') ?a afterPaste)) = length (stored afterPaste)"
    "\<forall>k. k \<notin> analysisKeys \<longrightarrow>
       (stored (updateDraftWithAnalysis (js ''draft_1'') ?a afterPaste) ! i) k = (stored afterPaste ! i) k"
    "\<forall>k\<in>analysisKeys. k \<noteq> js ''status'' \<longrightarrow>
       (stored (updateDraftWithAnalysis (js ''draft_1'') ?a afterPaste) ! i) k = Some (get_prop ?a k)"
    by blast
  from i(1) have i0: "i = 0" by (simp add: st)
  from i(2) have b: "length (stored (updateDraftWithAnalysis (js ''draft_1'') ?a afterPaste)) = 1"
    by (simp add: st)
  from i(4) k1 have c: "(stored (updateDraftWithAnalysis (js ''draft_1'') ?a afterPaste) ! 0)
      (js ''summary'') = Some (JStr (js ''ok''))"
    unfolding i0 by (simp add: get_prop_def)
  from i(3) k2 have d: "(stored (updateDraftWithAnalysis (js ''draft_1'') ?a afterPaste) ! 0)
      (js ''originalText'') = Some (JStr pastedDraft)"
    unfolding i0 by (simp add: st js_def)
  from a b c d show ?thesis by blast
qed

section \<open>Properties of the edit percentage and of the classifier\<close>

lemma lev_rec_le_max: "lev_rec a b \<le> max (length a) (length b)"
  by (induction a b rule: lev_rec.induct) auto

lemma percentage_bounds:
  assumes "d \<le> m" "0 < m"
  shows "0 \<le> \<lfloor>fl (fl (of_nat d / of_nat m) * 100) + 1 / 2\<rfloor>"
    and "\<lfloor>fl (fl (of_nat d / of_nat m) * 100) + 1 / 2\<rfloor> \<le> 100"
proof -
  let ?x = "fl (of_nat d / of_nat m)"
  let ?y = "fl (?x * 100)"
  from assms have q: "(0::rat) \<le> of_nat d / of_nat m" "(of_nat d / of_nat m :: rat) \<le> 1"
    by simp_all
  from fl_nonneg[OF q(1)] have x0: "0 \<le> ?x" .
  from fl_mono[OF q] have x1: "?x \<le> 1" by simp
  from x0 have "0 \<le> ?x * 100" by simp
  from fl_nonneg[OF this] have y0: "0 \<le> ?y" .
  from x0 x1 have "0 \<le> ?x * 100" "?x * 100 \<le> 100" by simp_all
  from fl_mono[OF this] have y1: "?y \<le> 100" by simp
  from y0 have "(0::rat) \<le> ?y + 1 / 2" by simp
  then show "0 \<le> \<lfloor>?y + 1 / 2\<rfloor>" by (simp only: zero_le_floor)
  from y1 have "?y + 1 / 2 < of_int 101" by simp
  then have "\<lfloor>?y + 1 / 2\<rfloor> < 101" by (simp only: floor_less_iff)
  then show "\<lfloor>?y + 1 / 2\<rfloor> \<le> 100" by simp
qed

lemma calculateEditPercentage_value:
  assumes "a \<noteq> [] \<or> b \<noteq> []"
  shows "calculateEditPercentage a b =
     Some (Num (of_int \<lfloor>fl (fl (of_nat (lev_rec a b) / of_nat (max (length a) (length b))) * 100)
        + 1 / 2\<rfloor>))"
proof -
  from assms have "max (length a) (length b) \<noteq> 0" by auto
  then show ?thesis
    by (simp add: calculateEditPercentage_def levenshteinDistance_lev_rec Let_def)
qed

lemma calculateEditPercentage_empty: "calculateEditPercentage [] [] = Some NaN"
  by (simp add: calculateEditPercentage_def levenshteinDistance_lev_rec)

text \<open>
  C3, as the code has it: when \<open>A\<close> or \<open>B\<close> is not empty, \<open>calculateEditPercentage(A, B)\<close> is
  \<open>Math.round\<close> of the double-precision value of \<open>distance / maxLength * 100\<close>, an integer
  between 0 and 100; when both are empty the quotient \<open>0 / 0\<close> is not special-cased and the
  result is \<open>NaN\<close>.
\<close>

theorem editPercentage_range:
  "(A \<noteq> [] \<or> B \<noteq> [] \<longrightarrow>
      (\<exists>d p. levenshteinDistance A B = Some (Some d)
           \<and> calculateEditPercentage A B = Some (Num (of_int p))
           \<and> p = \<lfloor>fl (fl (of_nat d / of_nat (max (length A) (length B))) * 100) + 1 / 2\<rfloor>
           \<and> 0 \<le> p \<and> p \<le> 100))
   \<and> calculateEditPercentage ([] :: 'a list) [] = Some NaN"
proof (intro conjI impI)
  assume ne: "A \<noteq> [] \<or> B \<noteq> []"
  then have m: "0 < max (length A) (length B)" by (auto simp add: less_max_iff_disj)
  from percentage_bounds[OF lev_rec_le_max m] calculateEditPercentage_value[OF ne]
  show "\<exists>d p. levenshteinDistance A B = Some (Some d)
           \<and> calculateEditPercentage A B = Some (Num (of_int p))
           \<and> p = \<lfloor>fl (fl (of_nat d / of_nat (max (length A) (length B))) * 100) + 1 / 2\<rfloor>
           \<and> 0 \<le> p \<and> p \<le> 100"
    by (simp add: levenshteinDistance_lev_rec)
next
  show "calculateEditPercentage ([] :: 'a list) [] = Some NaN"
    by (rule calculateEditPercentage_empty)
qed

theorem editPercentage_range_witness:
  "\<exists>p. calculateEditPercentage ''flaw'' ''lawn'' = Some (Num (of_int p)) \<and> 0 \<le> p \<and> p \<le> 100"
  using editPercentage_range[of "''flaw''" "''lawn''"] by auto

text \<open>
  C3 as stated fails for two empty strings: the result is \<open>NaN\<close>, not 0.
\<close>

theorem editPercentage_empty_counterexample:
  "calculateEditPercentage ([] :: jsstring) [] = Some NaN
   \<and> calculateEditPercentage ([] :: jsstring) [] \<noteq> Some (Num 0)"
  by (simp add: calculateEditPercentage_empty)

text \<open>
  The rounding is that of the doubles: for a distance of 23 over a length of 40 the product
  is just below 57.5 and the code yields 57, where the exact quotient rounds to 58.
\<close>

lemma double_rounding_example:
  "math_round (js_mul (js_div (Num 23) (Num 40)) (Num 100)) = Num 57
   \<and> \<lfloor>(23 / 40 * 100 :: rat) + 1 / 2\<rfloor> = 58"
  by code_simp

subsection \<open>The fallback verdict\<close>

lemma analyzeEdits_no_key:
  "analyzeEdits [] net originalText finalText editPercentage sendDelay =
     (fallback ''Unable to analyze (no API key)'' ''No API key configured'' originalText finalText, 0)"
  by (simp add: analyzeEdits_def)

lemma analyzeEdits_failure:
  assumes "apiKey \<noteq> []"
    and "net = FetchRejected \<or> (\<exists>status b. net = Response False status b)
         \<or> (\<exists>status. net = Response True status JsonRejected)
         \<or> (\<exists>status. net = Response True status ContentMissing)
         \<or> (\<exists>status. net = Response True status ContentUnparseable)"
  shows "analyzeEdits apiKey net originalText finalText editPercentage sendDelay =
     (fallback ''Unable to analyze (API error)'' ''Analysis failed'' originalText finalText, 1)"
  using assms by (auto simp add: analyzeEdits_def split: fetch_outcome.splits body.splits bool.splits)

text \<open>
  C5 at a failing input: both texts start and end with a space, the original has 34 words
  and the final text 41, an increase of more than 20%.  Without a key no network call is
  made and the fallback verdict is returned, but its length change is computed from 36 and
  43 pieces and reads \<open>No significant change\<close>.
\<close>

theorem fallback_length_counts_empty_pieces:
  "wordCount paddedOriginal = 34 \<and> wordCount paddedFinal = 41
   \<and> 20 * (34::int) < 100 * (41 - 34)
   \<and> length (split_ws paddedOriginal) = 36 \<and> length (split_ws paddedFinal) = 43
   \<and> snd (analyzeEdits [] FetchRejected paddedOriginal paddedFinal (Num 17) 5000) = 0
   \<and> get_prop (fst (analyzeEdits [] FetchRejected paddedOriginal paddedFinal (Num 17) 5000))
        (js ''lengthChange'') = JStr (js ''No significant change'')"
proof -
  have a: "wordCount paddedOriginal = 34" "wordCount paddedFinal = 41"
    "length (split_ws paddedOriginal) = 36" "length (split_ws paddedFinal) = 43"
    by code_simp+
  have b: "categorizeLengthChange paddedOriginal paddedFinal = js ''No significant change''"
    by code_simp
  have k: "js ''lengthChange'' \<noteq> js ''summary''" by (simp add: js_def)
  from a b k show ?thesis
    by (simp add: analyzeEdits_no_key fallback_def get_prop_def)
qed

end
